theory Spec2Isabelle
  imports Main
begin

text \<open>
  A shallow embedding of the KZG polynomial commitment scheme of the repository: the
  honest implementation \<open>Kzg\<close>, its cheating and hiding variants, the earlier
  \<open>PolynomialCommitmentScheme\<close>, and the polynomial utilities. Scalars are integers
  (JavaScript bigints), arrays are lists, and every assertion failure or exception of
  the source is a value of the type \<open>error\<close>. The scalar field, the two groups and the
  pairing belong to external libraries; they are modelled from their contract, with the
  order of the field as the parameter \<open>r\<close>, and with the range checks of the curve
  library as failures. The random secret that a setup reads is an argument of its model.
\<close>

section \<open>Failures\<close>

text \<open>
  Every way in which a call of the program can end without a value: a failed
  \<open>assert\<close>, an array constructor given a negative length, a method called on
  \<open>undefined\<close> (an array read past its end), and a field inversion that does
  not exist; and the two failures of the curve library, a scalar multiplication by a
  scalar outside its range and a pairing of the identity point.
\<close>

datatype error =
  AssertionError | RangeError | TypeError | InvertError | InvalidScalar | ZeroPairing

section \<open>The scalar field\<close>

text \<open>
  Modelled from the spec: the scalar field \<open>Fr\<close> of the external algebra library
  (section 6 of the specification: add, sub, mul, neg, inv, identities, all modulo the
  field order). The order itself, \<open>bls12_381.fields.Fr.ORDER\<close>, is a constant of that
  library; it is the parameter \<open>r\<close> of every definition below. Scalars are JavaScript
  bigints, that is, unbounded integers.
\<close>

definition Fr_add :: "int \<Rightarrow> int \<Rightarrow> int \<Rightarrow> int" where
  "Fr_add r a b = (a + b) mod r"

definition Fr_sub :: "int \<Rightarrow> int \<Rightarrow> int \<Rightarrow> int" where
  "Fr_sub r a b = (a - b) mod r"

definition Fr_mul :: "int \<Rightarrow> int \<Rightarrow> int \<Rightarrow> int" where
  "Fr_mul r a b = (a * b) mod r"

definition Fr_neg :: "int \<Rightarrow> int \<Rightarrow> int" where
  "Fr_neg r a = (- a) mod r"

text \<open>
  Modelled from the spec: inversion, "undefined at the additive identity and must fail
  fatally". It is computed by the extended Euclidean algorithm on the reduced argument
  and the order; \<open>invert_loop a b x u\<close> returns the last non-zero remainder together
  with its coefficient.
\<close>

function invert_loop :: "int \<Rightarrow> int \<Rightarrow> int \<Rightarrow> int \<Rightarrow> int \<times> int" where
  "invert_loop a b x u =
     (if a \<le> 0 then (b, x) else invert_loop (b mod a) a u (x - u * (b div a)))"
  by pat_completeness auto
termination
  by (relation "measure (\<lambda>(a, b, x, u). nat a)") auto

definition invert :: "int \<Rightarrow> int \<Rightarrow> error + int" where
  "invert number modulus =
     (if number mod modulus = 0 then Inl InvertError
      else case invert_loop (number mod modulus) modulus 0 1 of
             (g, x) \<Rightarrow> if g \<noteq> 1 then Inl InvertError else Inr (x mod modulus))"

definition Fr_inv :: "int \<Rightarrow> int \<Rightarrow> error + int" where
  "Fr_inv r a = invert a r"

definition Fr_div :: "int \<Rightarrow> int \<Rightarrow> int \<Rightarrow> error + int" where
  "Fr_div r a b = (case invert b r of Inl e \<Rightarrow> Inl e | Inr i \<Rightarrow> Inr ((a * i) mod r))"

text \<open>
  Modelled from the spec: the prime field that \<open>PolynomialCommitmentScheme\<close> creates
  with \<open>galois.createPrimeField(bls12_381.fields.Fr.ORDER)\<close>, a second external
  library over the same order.
\<close>

definition field_zero :: int where
  "field_zero = 0"

definition field_add :: "int \<Rightarrow> int \<Rightarrow> int \<Rightarrow> int" where
  "field_add r a b = (a + b) mod r"

definition field_mul :: "int \<Rightarrow> int \<Rightarrow> int \<Rightarrow> int" where
  "field_mul r a b = (a * b) mod r"

text \<open>The order is a prime: it has no divisor strictly between 1 and itself.\<close>

definition prime_order :: "int \<Rightarrow> bool" where
  "prime_order r \<longleftrightarrow> 1 < r \<and> (\<forall>d \<in> {2..<r}. \<not> d dvd r)"

section \<open>The groups and the pairing\<close>

text \<open>
  Modelled from the spec: the groups \<open>G1\<close>, \<open>G2\<close> and the pairing of the external
  algebra library (section 6: two groups of prime order \<open>r\<close> with fixed generators and
  identities, addition, subtraction, scalar multiplication, equality; a bilinear pairing
  into a target group with equality). A group of prime order is cyclic, so a point is
  represented by its discrete logarithm to the generator of its group, reduced modulo
  \<open>r\<close>; an element of the target group by its logarithm to the pairing of the two
  generators. Beyond the contract of section 6, the library @noble/curves that the
  program runs with checks its arguments: \<open>Point.multiply\<close> throws for a scalar
  outside \<open>1 .. r - 1\<close>, and \<open>pairing\<close> throws when one of its arguments is the
  identity point. Both checks are failures here; addition, subtraction and equality
  are total.
\<close>

datatype PointG1 = PointG1 int
datatype PointG2 = PointG2 int
datatype Fp12 = Fp12 int

definition G1_BASE :: PointG1 where
  "G1_BASE = PointG1 1"

definition G1_ZERO :: PointG1 where
  "G1_ZERO = PointG1 0"

definition G2_BASE :: PointG2 where
  "G2_BASE = PointG2 1"

fun G1_multiply :: "int \<Rightarrow> PointG1 \<Rightarrow> int \<Rightarrow> error + PointG1" where
  "G1_multiply r (PointG1 p) s =
     (if 1 \<le> s \<and> s < r then Inr (PointG1 ((p * s) mod r)) else Inl InvalidScalar)"

fun G1_add :: "int \<Rightarrow> PointG1 \<Rightarrow> PointG1 \<Rightarrow> PointG1" where
  "G1_add r (PointG1 p) (PointG1 q) = PointG1 ((p + q) mod r)"

fun G1_subtract :: "int \<Rightarrow> PointG1 \<Rightarrow> PointG1 \<Rightarrow> PointG1" where
  "G1_subtract r (PointG1 p) (PointG1 q) = PointG1 ((p - q) mod r)"

fun G2_multiply :: "int \<Rightarrow> PointG2 \<Rightarrow> int \<Rightarrow> error + PointG2" where
  "G2_multiply r (PointG2 p) s =
     (if 1 \<le> s \<and> s < r then Inr (PointG2 ((p * s) mod r)) else Inl InvalidScalar)"

fun G2_subtract :: "int \<Rightarrow> PointG2 \<Rightarrow> PointG2 \<Rightarrow> PointG2" where
  "G2_subtract r (PointG2 p) (PointG2 q) = PointG2 ((p - q) mod r)"

fun pairing :: "int \<Rightarrow> PointG1 \<Rightarrow> PointG2 \<Rightarrow> error + Fp12" where
  "pairing r (PointG1 p) (PointG2 q) =
     (if p mod r = 0 \<or> q mod r = 0 then Inl ZeroPairing else Inr (Fp12 ((p * q) mod r)))"

definition Fp12_eql :: "Fp12 \<Rightarrow> Fp12 \<Rightarrow> bool" where
  "Fp12_eql a b \<longleftrightarrow> a = b"

section \<open>Polynomial utilities\<close>

text \<open>\<open>evalPolyAt\<close>: \<open>reduceRight\<close> from \<open>Fr.ZERO\<close>, the last coefficient first.\<close>

definition evalPolyAt :: "int \<Rightarrow> int list \<Rightarrow> int \<Rightarrow> int" where
  "evalPolyAt r coefficients x =
     foldr (\<lambda>current accumulator. Fr_add r (Fr_mul r accumulator x) current) coefficients 0"

text \<open>\<open>addPoly\<close>: the shorter argument is read as zero past its end.\<close>

definition addPoly :: "int \<Rightarrow> int list \<Rightarrow> int list \<Rightarrow> int list" where
  "addPoly r a b =
     fold (\<lambda>i res. res[i := Fr_add r (if i < length a then a ! i else 0)
                                     (if i < length b then b ! i else 0)])
          [0..<max (length a) (length b)]
          (replicate (max (length a) (length b)) 0)"

text \<open>
  \<open>mulPoly\<close>: \<open>new Array(a.length + b.length - 1)\<close> throws a RangeError when both
  arguments are empty; otherwise every index \<open>i + j\<close> written is inside the array.
\<close>

definition mulPoly_loop :: "int \<Rightarrow> int list \<Rightarrow> int list \<Rightarrow> int list \<Rightarrow> int list" where
  "mulPoly_loop r a b res0 =
     fold (\<lambda>i res. fold (\<lambda>j res. res[i + j := Fr_add r (res ! (i + j)) (Fr_mul r (a ! i) (b ! j))])
                         [0..<length b] res)
          [0..<length a] res0"

definition mulPoly :: "int \<Rightarrow> int list \<Rightarrow> int list \<Rightarrow> error + int list" where
  "mulPoly r a b =
     (if length a + length b < 1 then Inl RangeError
      else Inr (mulPoly_loop r a b (replicate (length a + length b - 1) 0)))"

text \<open>
  \<open>lagrangeInterpolation\<close>. A point \<open>{x, y}\<close> is the pair \<open>(x, y)\<close>. The inner loop
  over \<open>j\<close> builds the basis polynomial and the denominator of point \<open>i\<close>; the outer
  loop adds the terms; the final loop pops trailing zeros.
\<close>

fun basis_loop ::
  "int \<Rightarrow> (int \<times> int) list \<Rightarrow> nat \<Rightarrow> nat list \<Rightarrow> int list \<Rightarrow> int \<Rightarrow> error + (int list \<times> int)" where
  "basis_loop r points i [] basis denominator = Inr (basis, denominator)"
| "basis_loop r points i (j # js) basis denominator =
     (if i \<noteq> j then
        (case mulPoly r basis [Fr_neg r (fst (points ! j)), 1] of
           Inl e \<Rightarrow> Inl e
         | Inr basis' \<Rightarrow>
             basis_loop r points i js basis'
               (Fr_mul r denominator (Fr_sub r (fst (points ! i)) (fst (points ! j)))))
      else basis_loop r points i js basis denominator)"

fun terms_loop :: "int \<Rightarrow> (int \<times> int) list \<Rightarrow> nat list \<Rightarrow> int list \<Rightarrow> error + int list" where
  "terms_loop r points [] result = Inr result"
| "terms_loop r points (i # is) result =
     (case basis_loop r points i [0..<length points] [1] 1 of
        Inl e \<Rightarrow> Inl e
      | Inr (basis, denominator) \<Rightarrow>
          (case Fr_inv r denominator of
             Inl e \<Rightarrow> Inl e
           | Inr invDenom \<Rightarrow>
               (case mulPoly r basis [Fr_mul r (snd (points ! i)) invDenom] of
                  Inl e \<Rightarrow> Inl e
                | Inr termPoly \<Rightarrow> terms_loop r points is (addPoly r result termPoly))))"

function pop_zeros :: "int list \<Rightarrow> int list" where
  "pop_zeros result =
     (if length result > 0 \<and> result ! (length result - 1) = 0
      then pop_zeros (butlast result) else result)"
  by pat_completeness auto
termination
  by (relation "measure length") auto

definition lagrangeInterpolation :: "int \<Rightarrow> (int \<times> int) list \<Rightarrow> error + int list" where
  "lagrangeInterpolation r points =
     (case terms_loop r points [0..<length points] [0] of
        Inl e \<Rightarrow> Inl e
      | Inr result \<Rightarrow> Inr (pop_zeros result))"

section \<open>Kzg\<close>

text \<open>
  \<open>type Setup = { pp: PointG1[]; alpha_G2: PointG2 }\<close>. The cheating variant
  returns \<open>Setup & { alpha: bigint }\<close>.
\<close>

record Setup =
  Setup_pp :: "PointG1 list"
  Setup_alpha_G2 :: PointG2

record CheatingSetup = Setup +
  Setup_alpha :: int

text \<open>
  \<open>Kzg._setup\<close>: for \<open>i\<close> from 0 while \<open>i < degree + 1\<close>, the loop computes
  \<open>G1.multiply(currentAlpha)\<close>, which may throw, multiplies \<open>currentAlpha\<close> by
  \<open>alpha\<close> in the field and pushes the point; \<open>G2.multiply(alpha)\<close> follows the loop.
\<close>

fun ladder_loop :: "int \<Rightarrow> int \<Rightarrow> nat list \<Rightarrow> int \<Rightarrow> PointG1 list \<Rightarrow> error + PointG1 list" where
  "ladder_loop r alpha [] currentAlpha pp = Inr pp"
| "ladder_loop r alpha (i # is) currentAlpha pp =
     (case G1_multiply r G1_BASE currentAlpha of
        Inl e \<Rightarrow> Inl e
      | Inr point \<Rightarrow> ladder_loop r alpha is (Fr_mul r currentAlpha alpha) (pp @ [point]))"

definition Kzg_protected_setup :: "int \<Rightarrow> int \<Rightarrow> int \<Rightarrow> error + Setup" where
  "Kzg_protected_setup r degree alpha =
     (if \<not> degree > 0 then Inl AssertionError
      else case ladder_loop r alpha [0..<nat (degree + 1)] 1 [] of
             Inl e \<Rightarrow> Inl e
           | Inr pp \<Rightarrow>
               (case G2_multiply r G2_BASE alpha of
                  Inl e \<Rightarrow> Inl e
                | Inr alpha_G2 \<Rightarrow> Inr \<lparr>Setup_pp = pp, Setup_alpha_G2 = alpha_G2\<rparr>))"

text \<open>
  \<open>Kzg.setup\<close>: the secret is read from the random source; the value read is the
  argument \<open>alpha\<close> here.
\<close>

definition Kzg_setup :: "int \<Rightarrow> int \<Rightarrow> int \<Rightarrow> error + Setup" where
  "Kzg_setup r alpha degree =
     (if \<not> degree > 0 then Inl AssertionError
      else Kzg_protected_setup r degree alpha)"

text \<open>
  \<open>Kzg.commit\<close>: after the assertion the loop computes \<open>pp[i].multiply(f_coeffs[i])\<close>,
  which may throw, and adds the term.
\<close>

fun commit_loop :: "int \<Rightarrow> PointG1 list \<Rightarrow> int list \<Rightarrow> nat list \<Rightarrow> PointG1 \<Rightarrow> error + PointG1" where
  "commit_loop r pp f_coeffs [] com_f = Inr com_f"
| "commit_loop r pp f_coeffs (i # is) com_f =
     (case G1_multiply r (pp ! i) (f_coeffs ! i) of
        Inl e \<Rightarrow> Inl e
      | Inr term \<Rightarrow> commit_loop r pp f_coeffs is (G1_add r com_f term))"

definition Kzg_commit :: "int \<Rightarrow> PointG1 list \<Rightarrow> int list \<Rightarrow> error + PointG1" where
  "Kzg_commit r pp f_coeffs =
     (if length pp \<noteq> length f_coeffs then Inl AssertionError
      else commit_loop r pp f_coeffs [0..<length pp] G1_ZERO)"

text \<open>
  The synthetic division of \<open>Kzg.prove\<close>: \<open>i\<close> runs from \<open>f_coeffs.length - 1\<close> down
  to 1. \<open>new Array(n)\<close> has \<open>n\<close> empty slots, every one of which the loop assigns;
  they start as 0 here.
\<close>

fun division_loop :: "int \<Rightarrow> int list \<Rightarrow> int \<Rightarrow> nat \<Rightarrow> int \<Rightarrow> int list \<Rightarrow> int \<times> int list" where
  "division_loop r f_coeffs u 0 carry q_coeffs = (carry, q_coeffs)"
| "division_loop r f_coeffs u (Suc k) carry q_coeffs =
     (let carry' = Fr_add r (f_coeffs ! Suc k) (Fr_mul r u carry)
      in division_loop r f_coeffs u k carry' (q_coeffs[k := carry']))"

definition synthetic_division :: "int \<Rightarrow> int list \<Rightarrow> int \<Rightarrow> int \<times> int list" where
  "synthetic_division r f_coeffs u =
     division_loop r f_coeffs u (length f_coeffs - 1) 0 (replicate (length f_coeffs - 1) 0)"

text \<open>
  \<open>Kzg.prove\<close>: \<open>new Array(-1)\<close> throws a RangeError for an empty coefficient vector;
  \<open>pp.slice(0, n)\<close> is \<open>take n\<close>.
\<close>

definition Kzg_prove :: "int \<Rightarrow> PointG1 list \<Rightarrow> int list \<Rightarrow> int \<Rightarrow> error + PointG1" where
  "Kzg_prove r pp f_coeffs u =
     (if length f_coeffs < 1 then Inl RangeError
      else let q_coeffs = snd (synthetic_division r f_coeffs u);
               q_pp = take (length q_coeffs) pp
           in Kzg_commit r q_pp q_coeffs)"

text \<open>
  \<open>Kzg.verify\<close>, in the order of evaluation of the source: \<open>G2.multiply(u)\<close>, the
  subtraction and the first pairing call, then \<open>G1.multiply(v)\<close>, the subtraction and
  the second pairing call, then the comparison. Each of the four library calls may
  throw.
\<close>

definition Kzg_verify :: "int \<Rightarrow> PointG1 \<Rightarrow> PointG1 \<Rightarrow> int \<Rightarrow> int \<Rightarrow> PointG2 \<Rightarrow> error + bool" where
  "Kzg_verify r com_f com_q u v alpha_G2 =
     (case G2_multiply r G2_BASE u of
        Inl e \<Rightarrow> Inl e
      | Inr u_G2 \<Rightarrow>
          (case pairing r com_q (G2_subtract r alpha_G2 u_G2) of
             Inl e \<Rightarrow> Inl e
           | Inr pairing2 \<Rightarrow>
               (case G1_multiply r G1_BASE v of
                  Inl e \<Rightarrow> Inl e
                | Inr v_G1 \<Rightarrow>
                    (case pairing r (G1_subtract r com_f v_G1) G2_BASE of
                       Inl e \<Rightarrow> Inl e
                     | Inr pairing1 \<Rightarrow> Inr (Fp12_eql pairing1 pairing2)))))"

section \<open>CheatingKzg\<close>

definition CheatingKzg_setup :: "int \<Rightarrow> int \<Rightarrow> int \<Rightarrow> error + CheatingSetup" where
  "CheatingKzg_setup r alpha degree =
     (if \<not> degree > 0 then Inl AssertionError
      else case Kzg_protected_setup r degree alpha of
             Inl e \<Rightarrow> Inl e
           | Inr s \<Rightarrow> Inr \<lparr>Setup_pp = Setup_pp s, Setup_alpha_G2 = Setup_alpha_G2 s,
                           Setup_alpha = alpha\<rparr>)"

definition eval_at_alpha :: "int \<Rightarrow> int list \<Rightarrow> int \<Rightarrow> int \<times> int" where
  "eval_at_alpha r f_coeffs alpha =
     fold (\<lambda>i (f_alpha, currentAlphaPow).
             (Fr_add r f_alpha (Fr_mul r (f_coeffs ! i) currentAlphaPow),
              Fr_mul r currentAlphaPow alpha))
          [0..<length f_coeffs] (0, 1)"

definition CheatingKzg_prove ::
  "int \<Rightarrow> PointG1 list \<Rightarrow> int list \<Rightarrow> int \<Rightarrow> int \<Rightarrow> int \<Rightarrow> error + PointG1" where
  "CheatingKzg_prove r pp f_coeffs u vFake alpha =
     (let f_alpha = fst (eval_at_alpha r f_coeffs alpha);
          numerator = Fr_sub r f_alpha vFake;
          denominator = Fr_sub r alpha u
      in case Fr_div r numerator denominator of
           Inl e \<Rightarrow> Inl e
         | Inr qFake \<Rightarrow> G1_multiply r G1_BASE qFake)"

section \<open>PolynomialCommitmentScheme\<close>

text \<open>
  The earlier implementation, over the field of the second library and the same curve
  library. Its \<open>setup\<close> reads the secret \<open>a\<close> from \<open>this.field.rand()\<close> and has
  no assertion.
\<close>

fun field_ladder_loop :: "int \<Rightarrow> int \<Rightarrow> nat list \<Rightarrow> int \<Rightarrow> PointG1 list \<Rightarrow> error + PointG1 list" where
  "field_ladder_loop r a [] currentAlpha pp = Inr pp"
| "field_ladder_loop r a (i # is) currentAlpha pp =
     (case G1_multiply r G1_BASE currentAlpha of
        Inl e \<Rightarrow> Inl e
      | Inr point \<Rightarrow> field_ladder_loop r a is (field_mul r currentAlpha a) (pp @ [point]))"

definition PolynomialCommitmentScheme_setup :: "int \<Rightarrow> int \<Rightarrow> int \<Rightarrow> error + Setup" where
  "PolynomialCommitmentScheme_setup r a degree =
     (case field_ladder_loop r a [0..<nat (degree + 1)] 1 [] of
        Inl e \<Rightarrow> Inl e
      | Inr pp \<Rightarrow>
          (case G2_multiply r G2_BASE a of
             Inl e \<Rightarrow> Inl e
           | Inr alpha_G2 \<Rightarrow> Inr \<lparr>Setup_pp = pp, Setup_alpha_G2 = alpha_G2\<rparr>))"

fun PolynomialCommitmentScheme_commit_loop ::
  "int \<Rightarrow> PointG1 list \<Rightarrow> int list \<Rightarrow> nat list \<Rightarrow> PointG1 \<Rightarrow> error + PointG1" where
  "PolynomialCommitmentScheme_commit_loop r pp coefficients [] com_f = Inr com_f"
| "PolynomialCommitmentScheme_commit_loop r pp coefficients (i # is) com_f =
     (case G1_multiply r (pp ! i) (coefficients ! i) of
        Inl e \<Rightarrow> Inl e
      | Inr term \<Rightarrow> PolynomialCommitmentScheme_commit_loop r pp coefficients is (G1_add r com_f term))"

definition PolynomialCommitmentScheme_commit ::
  "int \<Rightarrow> PointG1 list \<Rightarrow> int list \<Rightarrow> error + PointG1" where
  "PolynomialCommitmentScheme_commit r pp coefficients =
     (if length pp \<noteq> length coefficients then Inl AssertionError
      else PolynomialCommitmentScheme_commit_loop r pp coefficients [0..<length pp] G1_ZERO)"

fun field_division_loop ::
  "int \<Rightarrow> int list \<Rightarrow> int \<Rightarrow> nat \<Rightarrow> int \<Rightarrow> int list \<Rightarrow> int \<times> int list" where
  "field_division_loop r f_coefficients u 0 carry q_coefficients = (carry, q_coefficients)"
| "field_division_loop r f_coefficients u (Suc k) carry q_coefficients =
     (let carry' = field_add r (f_coefficients ! Suc k) (field_mul r u carry)
      in field_division_loop r f_coefficients u k carry' (q_coefficients[k := carry']))"

definition PolynomialCommitmentScheme_prove ::
  "int \<Rightarrow> PointG1 list \<Rightarrow> int list \<Rightarrow> int \<Rightarrow> error + PointG1" where
  "PolynomialCommitmentScheme_prove r pp f_coefficients u =
     (if length f_coefficients < 1 then Inl RangeError
      else let q_coefficients =
                 snd (field_division_loop r f_coefficients u (length f_coefficients - 1) field_zero
                        (replicate (length f_coefficients - 1) 0));
               q_pp = take (length q_coefficients) pp
           in PolynomialCommitmentScheme_commit r q_pp q_coefficients)"

section \<open>ZkKzg\<close>

record ZkSetup =
  Zk_pp_G1 :: "PointG1 list"
  Zk_pp_H :: "PointG1 list"
  Zk_alpha_G2 :: PointG2
  Zk_H :: PointG1

text \<open>
  \<open>ZkKzg._setup\<close>: \<open>G1.multiply(beta)\<close> comes first; each round of the loop computes
  \<open>G1.multiply(currentAlpha)\<close> and then \<open>H.multiply(currentAlpha)\<close>;
  \<open>G2.multiply(alpha)\<close> follows the loop.
\<close>

fun zk_ladder_loop ::
  "int \<Rightarrow> int \<Rightarrow> PointG1 \<Rightarrow> nat list \<Rightarrow> int \<Rightarrow> PointG1 list \<Rightarrow> PointG1 list
     \<Rightarrow> error + (PointG1 list \<times> PointG1 list)" where
  "zk_ladder_loop r alpha H [] currentAlpha pp_G1 pp_H = Inr (pp_G1, pp_H)"
| "zk_ladder_loop r alpha H (i # is) currentAlpha pp_G1 pp_H =
     (case G1_multiply r G1_BASE currentAlpha of
        Inl e \<Rightarrow> Inl e
      | Inr point \<Rightarrow>
          (case G1_multiply r H currentAlpha of
             Inl e \<Rightarrow> Inl e
           | Inr point_H \<Rightarrow>
               zk_ladder_loop r alpha H is (Fr_mul r currentAlpha alpha)
                 (pp_G1 @ [point]) (pp_H @ [point_H])))"

definition ZkKzg_protected_setup :: "int \<Rightarrow> int \<Rightarrow> int \<Rightarrow> int \<Rightarrow> error + ZkSetup" where
  "ZkKzg_protected_setup r degree alpha beta =
     (if \<not> degree > 0 then Inl AssertionError
      else case G1_multiply r G1_BASE beta of
             Inl e \<Rightarrow> Inl e
           | Inr H \<Rightarrow>
               (case zk_ladder_loop r alpha H [0..<nat (degree + 1)] 1 [] [] of
                  Inl e \<Rightarrow> Inl e
                | Inr (pp_G1, pp_H) \<Rightarrow>
                    (case G2_multiply r G2_BASE alpha of
                       Inl e \<Rightarrow> Inl e
                     | Inr alpha_G2 \<Rightarrow>
                         Inr \<lparr>Zk_pp_G1 = pp_G1, Zk_pp_H = pp_H,
                              Zk_alpha_G2 = alpha_G2, Zk_H = H\<rparr>)))"

definition ZkKzg_setup :: "int \<Rightarrow> int \<Rightarrow> int \<Rightarrow> int \<Rightarrow> error + ZkSetup" where
  "ZkKzg_setup r alpha beta degree =
     (if \<not> degree > 0 then Inl AssertionError
      else ZkKzg_protected_setup r degree alpha beta)"

text \<open>
  \<open>ZkKzg.commit\<close>: the loop runs over the indices of \<open>pp_G1\<close>. Each round computes
  \<open>pp_G1[i].multiply(f_coeffs[i])\<close>, which may throw, and then reads \<open>pp_H[i]\<close>;
  past the end of \<open>pp_H\<close> that is \<open>undefined\<close>, and \<open>undefined.multiply\<close> is a
  TypeError; otherwise \<open>pp_H[i].multiply(r_coeffs[i])\<close> may throw.
\<close>

fun zk_commit_loop ::
  "int \<Rightarrow> PointG1 list \<Rightarrow> PointG1 list \<Rightarrow> int list \<Rightarrow> int list \<Rightarrow> nat list \<Rightarrow> PointG1
     \<Rightarrow> error + PointG1" where
  "zk_commit_loop r pp_G1 pp_H f_coeffs r_coeffs [] com_f = Inr com_f"
| "zk_commit_loop r pp_G1 pp_H f_coeffs r_coeffs (i # is) com_f =
     (case G1_multiply r (pp_G1 ! i) (f_coeffs ! i) of
        Inl e \<Rightarrow> Inl e
      | Inr termG1 \<Rightarrow>
          (if \<not> i < length pp_H then Inl TypeError
           else case G1_multiply r (pp_H ! i) (r_coeffs ! i) of
                  Inl e \<Rightarrow> Inl e
                | Inr termH \<Rightarrow>
                    zk_commit_loop r pp_G1 pp_H f_coeffs r_coeffs is
                      (G1_add r (G1_add r com_f termG1) termH)))"

definition ZkKzg_commit ::
  "int \<Rightarrow> PointG1 list \<Rightarrow> PointG1 list \<Rightarrow> int list \<Rightarrow> int list \<Rightarrow> error + PointG1" where
  "ZkKzg_commit r pp_G1 pp_H f_coeffs r_coeffs =
     (if length pp_G1 \<noteq> length f_coeffs then Inl AssertionError
      else if length pp_H \<noteq> length r_coeffs then Inl AssertionError
      else zk_commit_loop r pp_G1 pp_H f_coeffs r_coeffs [0..<length pp_G1] G1_ZERO)"

definition ZkKzg_prove ::
  "int \<Rightarrow> PointG1 list \<Rightarrow> PointG1 list \<Rightarrow> int list \<Rightarrow> int list \<Rightarrow> int \<Rightarrow> error + PointG1" where
  "ZkKzg_prove r pp_G1 pp_H f_coeffs r_coeffs u =
     (if length f_coeffs < 1 \<or> length r_coeffs < 1 then Inl RangeError
      else let q_f_coeffs = snd (synthetic_division r f_coeffs u);
               q_r_coeffs = snd (synthetic_division r r_coeffs u);
               q_pp_G1 = take (length q_f_coeffs) pp_G1;
               q_pp_H = take (length q_r_coeffs) pp_H
           in ZkKzg_commit r q_pp_G1 q_pp_H q_f_coeffs q_r_coeffs)"

section \<open>Reference notions for the proofs\<close>

text \<open>
  The quotient of a coefficient vector by \<open>x - u\<close>, by recursion on the vector: the
  coefficient of index \<open>j\<close> is the value at \<open>u\<close> of the vector with its first
  \<open>j + 1\<close> coefficients dropped.
\<close>

fun quotient_of :: "int \<Rightarrow> int list \<Rightarrow> int \<Rightarrow> int list" where
  "quotient_of r [] u = []"
| "quotient_of r [c] u = []"
| "quotient_of r (c # cs) u = evalPolyAt r cs u # quotient_of r cs u"

text \<open>The discrete logarithm that represents a point.\<close>

primrec dlog :: "PointG1 \<Rightarrow> int" where
  "dlog (PointG1 p) = p"

text \<open>The value of a coefficient vector at a point, over the integers.\<close>

definition pv :: "int list \<Rightarrow> int \<Rightarrow> int" where
  "pv f x = (\<Sum>i<length f. f ! i * x ^ i)"

text \<open>
  The value at \<open>x\<close> of the basis polynomial of point \<open>i\<close>: the product of
  \<open>x - x_j\<close> over the indices \<open>j\<close> of \<open>js\<close> other than \<open>i\<close>.
\<close>

definition basis_val :: "(int \<times> int) list \<Rightarrow> nat \<Rightarrow> nat list \<Rightarrow> int \<Rightarrow> int" where
  "basis_val points i js x = prod_list (map (\<lambda>j. x - fst (points ! j)) (filter (\<lambda>j. j \<noteq> i) js))"

text \<open>
  The order of the scalar field of the curve BLS12-381, that is, the value of the
  constant \<open>bls12_381.fields.Fr.ORDER\<close> which \<open>PolynomialCommitmentScheme\<close> passes to
  \<open>createPrimeField\<close> and over which \<open>Kzg.Fr\<close> computes (hexadecimal
  73eda753299d7d483339d80809a1d80553bda402fffe5bfeffffffff00000001). The library is not
  part of the sources; the constant serves only for evaluations at the order the
  program runs with.
\<close>

definition bls12_381_Fr_ORDER :: int where
  "bls12_381_Fr_ORDER = 52435875175126190479447740508185965837690552500527637822603658699938581184513"

section \<open>Evaluation and synthetic division\<close>

lemma evalPolyAt_Nil: "evalPolyAt r [] x = 0"
  by (simp add: evalPolyAt_def)

lemma evalPolyAt_Cons: "evalPolyAt r (c # cs) x = (evalPolyAt r cs x * x + c) mod r"
  by (simp add: evalPolyAt_def Fr_add_def Fr_mul_def mod_simps)

lemma evalPolyAt_mod: "evalPolyAt r cs x mod r = evalPolyAt r cs x"
  by (cases cs) (simp_all add: evalPolyAt_Nil evalPolyAt_Cons)

lemma length_quotient_of: "length (quotient_of r f u) = length f - 1"
  by (induction r f u rule: quotient_of.induct) simp_all

lemma nth_quotient_of:
  "Suc j < length f \<Longrightarrow> quotient_of r f u ! j = evalPolyAt r (drop (Suc j) f) u"
proof (induction r f u arbitrary: j rule: quotient_of.induct)
  case (3 r c d ds u)
  then show ?case by (cases j) simp_all
qed simp_all

lemma division_loop_length:
  "length (snd (division_loop r f u k carry q)) = length q"
  by (induction k arbitrary: carry q) (simp_all add: Let_def)

lemma division_loop_carry:
  "k < length f \<Longrightarrow> carry = evalPolyAt r (drop (Suc k) f) u \<Longrightarrow>
   fst (division_loop r f u k carry q) = evalPolyAt r (drop 1 f) u"
proof (induction k arbitrary: carry q)
  case 0
  then show ?case by simp
next
  case (Suc k)
  have d: "drop (Suc k) f = f ! Suc k # drop (Suc (Suc k)) f"
    using Suc.prems(1) by (simp add: Cons_nth_drop_Suc)
  have "Fr_add r (f ! Suc k) (Fr_mul r u carry) = evalPolyAt r (drop (Suc k) f) u"
    unfolding d evalPolyAt_Cons using Suc.prems(2)
    by (simp add: Fr_add_def Fr_mul_def mod_simps algebra_simps)
  with Suc.IH[of _ "q[k := Fr_add r (f ! Suc k) (Fr_mul r u carry)]"] Suc.prems(1)
  show ?case by (simp add: Let_def)
qed

lemma division_loop_nth:
  "k < length f \<Longrightarrow> carry = evalPolyAt r (drop (Suc k) f) u \<Longrightarrow> j < length q \<Longrightarrow>
   snd (division_loop r f u k carry q) ! j =
     (if j < k then evalPolyAt r (drop (Suc j) f) u else q ! j)"
proof (induction k arbitrary: carry q)
  case 0
  then show ?case by simp
next
  case (Suc k)
  let ?c = "Fr_add r (f ! Suc k) (Fr_mul r u carry)"
  have d: "drop (Suc k) f = f ! Suc k # drop (Suc (Suc k)) f"
    using Suc.prems(1) by (simp add: Cons_nth_drop_Suc)
  have c: "?c = evalPolyAt r (drop (Suc k) f) u"
    unfolding d evalPolyAt_Cons using Suc.prems(2)
    by (simp add: Fr_add_def Fr_mul_def mod_simps algebra_simps)
  have "snd (division_loop r f u k ?c (q[k := ?c])) ! j =
          (if j < k then evalPolyAt r (drop (Suc j) f) u else q[k := ?c] ! j)"
    using Suc.IH[of ?c "q[k := ?c]"] Suc.prems c by simp
  then show ?case using Suc.prems(3) c
    by (auto simp: Let_def nth_list_update less_Suc_eq)
qed

lemma synthetic_division_quotient:
  "snd (synthetic_division r f u) = quotient_of r f u"
proof (rule nth_equalityI)
  show "length (snd (synthetic_division r f u)) = length (quotient_of r f u)"
    by (simp add: synthetic_division_def division_loop_length length_quotient_of)
next
  fix j assume "j < length (snd (synthetic_division r f u))"
  then have j: "j < length f - 1"
    by (simp add: synthetic_division_def division_loop_length)
  then have "snd (synthetic_division r f u) ! j = evalPolyAt r (drop (Suc j) f) u"
    unfolding synthetic_division_def
    by (subst division_loop_nth) (auto simp: evalPolyAt_Nil)
  also have "\<dots> = quotient_of r f u ! j"
    using j by (simp add: nth_quotient_of)
  finally show "snd (synthetic_division r f u) ! j = quotient_of r f u ! j" .
qed

lemma synthetic_division_carry:
  "fst (synthetic_division r f u) = evalPolyAt r (drop 1 f) u"
proof (cases f)
  case Nil
  then show ?thesis by (simp add: synthetic_division_def evalPolyAt_Nil)
next
  case (Cons c cs)
  show ?thesis unfolding synthetic_division_def
    by (rule division_loop_carry) (simp_all add: Cons evalPolyAt_Nil)
qed

lemma quotient_of_identity:
  "(evalPolyAt r (quotient_of r f u) x * (x - u)) mod r =
   (evalPolyAt r f x - evalPolyAt r f u) mod r"
proof (induction r f u rule: quotient_of.induct)
  case (1 r u)
  then show ?case by (simp add: evalPolyAt_Nil)
next
  case (2 r c u)
  then show ?case by (simp add: evalPolyAt_Nil evalPolyAt_Cons mod_simps)
next
  case (3 r c d ds u)
  let ?cs = "d # ds"
  let ?Q = "evalPolyAt r (quotient_of r ?cs u) x"
  let ?E = "evalPolyAt r ?cs u"
  let ?F = "evalPolyAt r ?cs x"
  have ih: "r dvd (?Q * (x - u) - (?F - ?E))"
    using 3 by (simp add: mod_eq_dvd_iff)
  have "(?Q * x + ?E) * (x - u) - ((?F * x + c) - (?E * u + c)) =
        x * (?Q * (x - u) - (?F - ?E))"
    by (simp add: algebra_simps)
  then have "r dvd ((?Q * x + ?E) * (x - u) - ((?F * x + c) - (?E * u + c)))"
    using ih by simp
  then have main: "((?Q * x + ?E) * (x - u)) mod r = ((?F * x + c) - (?E * u + c)) mod r"
    by (simp add: mod_eq_dvd_iff)
  have e1: "evalPolyAt r (c # ?cs) x = (?F * x + c) mod r"
    by (rule evalPolyAt_Cons)
  have e2: "evalPolyAt r (c # ?cs) u = (?E * u + c) mod r"
    by (rule evalPolyAt_Cons)
  have q: "evalPolyAt r (quotient_of r (c # ?cs) u) x = (?Q * x + ?E) mod r"
    by (simp only: quotient_of.simps evalPolyAt_Cons)
  show ?case unfolding e1 e2 q
    using main by (simp only: mod_mult_left_eq mod_diff_eq)
qed

section \<open>Evaluation as a sum\<close>

lemma evalPolyAt_sum: "evalPolyAt r f x = (\<Sum>i<length f. f ! i * x ^ i) mod r"
proof (induction f)
  case Nil
  then show ?case by (simp add: evalPolyAt_Nil)
next
  case (Cons c cs)
  let ?S = "\<Sum>i<length cs. cs ! i * x ^ i"
  have "?S * x = (\<Sum>i<length cs. cs ! i * x ^ Suc i)"
    by (simp only: sum_distrib_right power_Suc2 mult.assoc)
  then have e: "(\<Sum>i<length (c # cs). (c # cs) ! i * x ^ i) = ?S * x + c"
    unfolding length_Cons sum.lessThan_Suc_shift by simp
  have "evalPolyAt r (c # cs) x = (?S mod r * x + c) mod r"
    by (simp only: evalPolyAt_Cons Cons.IH)
  also have "\<dots> = ((?S mod r * x) mod r + c) mod r"
    by (simp only: mod_add_left_eq)
  also have "\<dots> = ((?S * x) mod r + c) mod r"
    by (simp only: mod_mult_left_eq)
  also have "\<dots> = (?S * x + c) mod r"
    by (simp only: mod_add_left_eq)
  finally show ?case
    by (simp only: e)
qed

section \<open>Inversion\<close>

lemma invert_loop_correct:
  "0 \<le> a \<Longrightarrow> 0 < b \<Longrightarrow> (x * n) mod m = b mod m \<Longrightarrow> (u * n) mod m = a mod m \<Longrightarrow>
   invert_loop a b x u = (g, y) \<Longrightarrow> g = gcd a b \<and> (y * n) mod m = g mod m"
proof (induction a b x u rule: invert_loop.induct)
  case (1 a b x u)
  show ?case
  proof (cases "a \<le> 0")
    case True
    with "1.prems" have "a = 0" by simp
    with "1.prems" show ?thesis by (simp add: invert_loop.simps[of a])
  next
    case False
    then have a: "0 < a" by simp
    have r: "invert_loop (b mod a) a u (x - u * (b div a)) = (g, y)"
      using "1.prems"(5) False by (simp add: invert_loop.simps[of a])
    have "((x - u * (b div a)) * n) mod m = (x * n - (u * n) * (b div a)) mod m"
      by (simp add: algebra_simps)
    also have "\<dots> = (b - a * (b div a)) mod m"
      using "1.prems"(3,4) by (metis mod_diff_cong mod_mult_left_eq)
    also have "b - a * (b div a) = b mod a"
      by (simp add: minus_mult_div_eq_mod)
    finally have u': "((x - u * (b div a)) * n) mod m = (b mod a) mod m" .
    have "g = gcd (b mod a) a \<and> (y * n) mod m = g mod m"
      using "1.IH"[OF False _ a "1.prems"(4) u' r] a by simp
    then show ?thesis
      by (simp add: gcd.commute gcd_red_int[symmetric])
  qed
qed

lemma prime_order_gcd:
  assumes "prime_order r" and "a mod r \<noteq> 0"
  shows "gcd (a mod r) r = 1"
proof -
  have r: "1 < r" using assms(1) by (simp add: prime_order_def)
  let ?d = "gcd (a mod r) r"
  have "0 \<le> a mod r" "a mod r < r"
    using r by simp_all
  with assms(2) have a: "0 < a mod r" "a mod r < r"
    by linarith+
  have "?d dvd a mod r" by simp
  then have "?d \<le> a mod r"
    using a(1) by (rule zdvd_imp_le)
  then have lt: "?d < r" using a(2) by simp
  have pos: "0 < ?d" using r by (simp add: gcd_pos_int)
  have "\<not> 2 \<le> ?d"
  proof
    assume "2 \<le> ?d"
    then have "?d \<in> {2..<r}" using lt by simp
    moreover have "\<forall>d\<in>{2..<r}. \<not> d dvd r"
      using assms(1) by (simp add: prime_order_def)
    ultimately have "\<not> ?d dvd r" by blast
    then show False by simp
  qed
  with pos show ?thesis by linarith
qed

lemma invert_correct:
  assumes "prime_order r" and "a mod r \<noteq> 0"
  shows "\<exists>i. invert a r = Inr i \<and> (i * a) mod r = 1"
proof -
  have r: "1 < r" using assms(1) by (simp add: prime_order_def)
  obtain g y where gy: "invert_loop (a mod r) r 0 1 = (g, y)"
    by (cases "invert_loop (a mod r) r 0 1")
  have "g = gcd (a mod r) r \<and> (y * a) mod r = g mod r"
    using r by (intro invert_loop_correct[OF _ _ _ _ gy]) simp_all
  then have g: "g = 1" and y: "(y * a) mod r = 1"
    using prime_order_gcd[OF assms] r by simp_all
  have "(y mod r * a) mod r = 1"
    using y by (simp add: mod_mult_left_eq)
  then show ?thesis
    using assms(2) gy g by (simp add: invert_def)
qed

lemma eval_at_alpha_fold:
  "\<exists>p. fold (\<lambda>i (f_alpha, currentAlphaPow).
             (Fr_add r f_alpha (Fr_mul r (f ! i) currentAlphaPow), Fr_mul r currentAlphaPow alpha))
          [0..<n] (0, 1) = ((\<Sum>i<n. f ! i * alpha ^ i) mod r, p)
       \<and> p mod r = alpha ^ n mod r"
proof (induction n)
  case 0
  then show ?case by simp
next
  case (Suc n)
  then obtain p where
    p: "fold (\<lambda>i (f_alpha, currentAlphaPow).
             (Fr_add r f_alpha (Fr_mul r (f ! i) currentAlphaPow), Fr_mul r currentAlphaPow alpha))
          [0..<n] (0, 1) = ((\<Sum>i<n. f ! i * alpha ^ i) mod r, p)"
    and m: "p mod r = alpha ^ n mod r"
    by blast
  have t: "(f ! n * p) mod r = (f ! n * alpha ^ n) mod r"
    using m by (metis mod_mult_right_eq)
  have 1: "Fr_add r ((\<Sum>i<n. f ! i * alpha ^ i) mod r) (Fr_mul r (f ! n) p)
             = (\<Sum>i<Suc n. f ! i * alpha ^ i) mod r"
    unfolding Fr_add_def Fr_mul_def t by (simp add: mod_simps)
  have 2: "Fr_mul r p alpha mod r = alpha ^ Suc n mod r"
    using m by (simp add: Fr_mul_def mod_simps) (metis mod_mult_left_eq mult.commute)
  show ?case
    using p 1 2 by simp
qed

lemma eval_at_alpha_value: "fst (eval_at_alpha r f alpha) = evalPolyAt r f alpha"
  using eval_at_alpha_fold[of r f alpha "length f"]
  by (auto simp: eval_at_alpha_def evalPolyAt_sum)

lemma field_division_loop_eq:
  "field_division_loop r f u k carry q = division_loop r f u k carry q"
  by (induction k arbitrary: carry q) (simp_all add: field_add_def field_mul_def Fr_add_def Fr_mul_def)

section \<open>Polynomial multiplication and addition\<close>

lemma evalPolyAt_pv: "evalPolyAt r f x = pv f x mod r"
  by (simp add: evalPolyAt_sum pv_def)

lemma pv_replicate: "pv (replicate n 0) x = 0"
  by (simp add: pv_def)

lemma pv_update:
  assumes "k < length res"
  shows "pv (res[k := v]) x = pv res x + (v - res ! k) * x ^ k"
proof -
  have "pv (res[k := v]) x = (\<Sum>i<length res. res ! i * x ^ i + (if i = k then (v - res ! k) * x ^ k else 0))"
    unfolding pv_def length_list_update
    by (rule sum.cong) (auto simp: nth_list_update algebra_simps)
  also have "\<dots> = pv res x + (\<Sum>i<length res. if i = k then (v - res ! k) * x ^ k else 0)"
    by (simp add: sum.distrib pv_def)
  also have "(\<Sum>i<length res. if i = k then (v - res ! k) * x ^ k else 0) = (v - res ! k) * x ^ k"
    using assms by (simp add: sum.delta)
  finally show ?thesis .
qed

lemma pv_update_add:
  assumes "k < length res"
  shows "pv (res[k := Fr_add r (res ! k) (Fr_mul r c d)]) x mod r = (pv res x + c * d * x ^ k) mod r"
proof -
  have "((res ! k + c * d) mod r - res ! k) * x ^ k mod r = (c * d * x ^ k) mod r"
    by (metis add_diff_cancel_left' mod_diff_left_eq mod_mult_left_eq)
  then have "(pv res x + ((res ! k + c * d) mod r - res ! k) * x ^ k) mod r = (pv res x + c * d * x ^ k) mod r"
    by (rule mod_add_cong[OF refl])
  then show ?thesis
    by (simp add: pv_update[OF assms] Fr_add_def Fr_mul_def mod_simps)
qed

lemma mulPoly_inner:
  "i + m \<le> length res \<Longrightarrow>
   length (fold (\<lambda>j res. res[i + j := Fr_add r (res ! (i + j)) (Fr_mul r c (b ! j))]) [0..<m] res)
     = length res
   \<and> pv (fold (\<lambda>j res. res[i + j := Fr_add r (res ! (i + j)) (Fr_mul r c (b ! j))]) [0..<m] res) x mod r
     = (pv res x + c * x ^ i * (\<Sum>j<m. b ! j * x ^ j)) mod r"
proof (induction m)
  case 0
  then show ?case by simp
next
  case (Suc m)
  let ?res = "fold (\<lambda>j res. res[i + j := Fr_add r (res ! (i + j)) (Fr_mul r c (b ! j))]) [0..<m] res"
  have len: "length ?res = length res"
    and val: "pv ?res x mod r = (pv res x + c * x ^ i * (\<Sum>j<m. b ! j * x ^ j)) mod r"
    using Suc by simp_all
  have k: "i + m < length ?res"
    using Suc.prems len by simp
  have "pv (?res[i + m := Fr_add r (?res ! (i + m)) (Fr_mul r c (b ! m))]) x mod r
          = (pv ?res x + c * (b ! m) * x ^ (i + m)) mod r"
    by (rule pv_update_add[OF k])
  also have "\<dots> = ((pv res x + c * x ^ i * (\<Sum>j<m. b ! j * x ^ j)) + c * (b ! m) * x ^ (i + m)) mod r"
    using val by (rule mod_add_cong) simp
  also have "(pv res x + c * x ^ i * (\<Sum>j<m. b ! j * x ^ j)) + c * (b ! m) * x ^ (i + m)
               = pv res x + c * x ^ i * (\<Sum>j<Suc m. b ! j * x ^ j)"
    by (simp add: algebra_simps power_add)
  finally show ?case
    using len by simp
qed

lemma mulPoly_inner_full:
  assumes "i + length b \<le> length res"
  shows "length (fold (\<lambda>j res. res[i + j := Fr_add r (res ! (i + j)) (Fr_mul r c (b ! j))]) [0..<length b] res)
     = length res"
    and "pv (fold (\<lambda>j res. res[i + j := Fr_add r (res ! (i + j)) (Fr_mul r c (b ! j))]) [0..<length b] res) x mod r
     = (pv res x + c * x ^ i * pv b x) mod r"
  using mulPoly_inner[OF assms, of r c b x] by (simp_all add: pv_def[of b])

lemma mulPoly_outer:
  "b \<noteq> [] \<Longrightarrow> n + length b \<le> length res + 1 \<Longrightarrow>
   length (fold (\<lambda>i res. fold (\<lambda>j res. res[i + j := Fr_add r (res ! (i + j)) (Fr_mul r (a ! i) (b ! j))])
                         [0..<length b] res) [0..<n] res) = length res
   \<and> pv (fold (\<lambda>i res. fold (\<lambda>j res. res[i + j := Fr_add r (res ! (i + j)) (Fr_mul r (a ! i) (b ! j))])
                         [0..<length b] res) [0..<n] res) x mod r
     = (pv res x + (\<Sum>i<n. a ! i * x ^ i) * pv b x) mod r"
proof (induction n)
  case 0
  then show ?case by simp
next
  case (Suc n)
  let ?res = "fold (\<lambda>i res. fold (\<lambda>j res. res[i + j := Fr_add r (res ! (i + j)) (Fr_mul r (a ! i) (b ! j))])
                         [0..<length b] res) [0..<n] res"
  have len: "length ?res = length res"
    and val: "pv ?res x mod r = (pv res x + (\<Sum>i<n. a ! i * x ^ i) * pv b x) mod r"
    using Suc by simp_all
  have k: "n + length b \<le> length ?res"
    using Suc.prems len by simp
  note inner1 = mulPoly_inner_full(1)[OF k, where r=r and c="a ! n"]
  note inner2 = mulPoly_inner_full(2)[OF k, where r=r and c="a ! n" and x=x]
  have "pv (fold (\<lambda>j res. res[n + j := Fr_add r (res ! (n + j)) (Fr_mul r (a ! n) (b ! j))]) [0..<length b] ?res) x mod r
      = (pv ?res x + a ! n * x ^ n * pv b x) mod r"
    by (rule inner2)
  also have "\<dots> = ((pv res x + (\<Sum>i<n. a ! i * x ^ i) * pv b x) + a ! n * x ^ n * pv b x) mod r"
    using val by (rule mod_add_cong) simp
  also have "(pv res x + (\<Sum>i<n. a ! i * x ^ i) * pv b x) + a ! n * x ^ n * pv b x
           = pv res x + (\<Sum>i<Suc n. a ! i * x ^ i) * pv b x"
    by (simp add: algebra_simps)
  finally show ?case
    using inner1 len by simp
qed

lemma mulPoly_Inr:
  assumes "b \<noteq> []"
  shows "mulPoly r a b = Inr (mulPoly_loop r a b (replicate (length a + length b - 1) 0))"
proof -
  have "\<not> length a + length b < 1"
    using assms by (cases b) simp_all
  then show ?thesis
    by (simp add: mulPoly_def)
qed

lemma mulPoly_loop_value:
  assumes "b \<noteq> []"
  shows "length (mulPoly_loop r a b (replicate (length a + length b - 1) 0)) = length a + length b - 1"
    and "evalPolyAt r (mulPoly_loop r a b (replicate (length a + length b - 1) 0)) x
           = (evalPolyAt r a x * evalPolyAt r b x) mod r"
proof -
  let ?res0 = "replicate (length a + length b - 1) (0 :: int)"
  have l: "length a + length b \<le> length ?res0 + 1"
    using assms by (cases b) simp_all
  note o = mulPoly_outer[OF assms l, of r a x]
  show "length (mulPoly_loop r a b ?res0) = length a + length b - 1"
    using o by (simp add: mulPoly_loop_def)
  have "evalPolyAt r (mulPoly_loop r a b ?res0) x = (pv a x * pv b x) mod r"
    using o by (simp add: evalPolyAt_pv mulPoly_loop_def pv_replicate pv_def[of a])
  then show "evalPolyAt r (mulPoly_loop r a b ?res0) x = (evalPolyAt r a x * evalPolyAt r b x) mod r"
    by (simp add: evalPolyAt_pv mod_simps)
qed

lemma fold_update_upt:
  "m \<le> length res \<Longrightarrow>
   fold (\<lambda>i res. res[i := g i]) [0..<m] res = map g [0..<m] @ drop m res"
proof (induction m)
  case 0
  then show ?case by simp
next
  case (Suc m)
  then have m: "m < length res" by simp
  have "(map g [0..<m] @ drop m res)[m := g m] = map g [0..<m] @ (drop m res)[0 := g m]"
    by (simp add: list_update_append)
  also have "(drop m res)[0 := g m] = g m # drop (Suc m) res"
    using m by (simp add: Cons_nth_drop_Suc[symmetric])
  finally show ?case
    using Suc by simp
qed

lemma addPoly_map:
  "addPoly r a b =
     map (\<lambda>i. Fr_add r (if i < length a then a ! i else 0) (if i < length b then b ! i else 0))
         [0..<max (length a) (length b)]"
  unfolding addPoly_def by (subst fold_update_upt) simp_all

lemma length_addPoly: "length (addPoly r a b) = max (length a) (length b)"
  by (simp add: addPoly_map)

lemma addPoly_canonical: "c \<in> set (addPoly r a b) \<Longrightarrow> c mod r = c"
  by (auto simp: addPoly_map Fr_add_def)

lemma pv_pad:
  assumes "length a \<le> n"
  shows "(\<Sum>i<n. (if i < length a then a ! i else 0) * x ^ i) = pv a x"
proof -
  have "(\<Sum>i<n. (if i < length a then a ! i else 0) * x ^ i)
          = (\<Sum>i\<in>{..<n}. if i \<in> {..<length a} then a ! i * x ^ i else 0)"
    by (rule sum.cong) simp_all
  also have "\<dots> = (\<Sum>i\<in>{..<n} \<inter> {..<length a}. a ! i * x ^ i)"
    by (simp add: sum.inter_restrict)
  also have "{..<n} \<inter> {..<length a} = {..<length a}"
    using assms by auto
  finally show ?thesis by (simp add: pv_def)
qed

lemma evalPolyAt_addPoly:
  "evalPolyAt r (addPoly r a b) x = (evalPolyAt r a x + evalPolyAt r b x) mod r"
proof -
  let ?n = "max (length a) (length b)"
  let ?a = "\<lambda>i. if i < length a then a ! i else 0"
  let ?b = "\<lambda>i. if i < length b then b ! i else 0"
  have "pv (addPoly r a b) x = (\<Sum>i<?n. ((?a i + ?b i) mod r) * x ^ i)"
    unfolding pv_def length_addPoly
    by (rule sum.cong) (simp_all add: addPoly_map Fr_add_def)
  also have "\<dots> mod r = (\<Sum>i<?n. (((?a i + ?b i) mod r) * x ^ i) mod r) mod r"
    by (simp only: mod_sum_eq)
  also have "\<dots> = (\<Sum>i<?n. ((?a i + ?b i) * x ^ i) mod r) mod r"
    by (simp only: mod_mult_left_eq)
  also have "\<dots> = (\<Sum>i<?n. (?a i + ?b i) * x ^ i) mod r"
    by (simp only: mod_sum_eq)
  also have "(\<Sum>i<?n. (?a i + ?b i) * x ^ i) = (\<Sum>i<?n. ?a i * x ^ i) + (\<Sum>i<?n. ?b i * x ^ i)"
    by (simp only: distrib_right sum.distrib)
  also have "\<dots> = pv a x + pv b x"
    by (simp only: pv_pad[of a ?n x] pv_pad[of b ?n x] max.cobounded1 max.cobounded2)
  finally show ?thesis
    by (simp add: evalPolyAt_pv mod_simps)
qed

section \<open>The coefficients of a product, and of the quotient times \<open>x - u\<close>\<close>

lemma mulPoly_inner_nth:
  "i + m \<le> length res \<Longrightarrow> k < length res \<Longrightarrow>
   fold (\<lambda>j res. res[i + j := Fr_add r (res ! (i + j)) (Fr_mul r c (b ! j))]) [0..<m] res ! k
     = (if i \<le> k \<and> k < i + m then Fr_add r (res ! k) (Fr_mul r c (b ! (k - i))) else res ! k)"
proof (induction m arbitrary: k)
  case 0
  then show ?case by simp
next
  case (Suc m)
  let ?res = "fold (\<lambda>j res. res[i + j := Fr_add r (res ! (i + j)) (Fr_mul r c (b ! j))]) [0..<m] res"
  have im: "i + m \<le> length res" and im': "i + m < length res"
    using Suc.prems(1) by simp_all
  have len: "length ?res = length res"
    using mulPoly_inner[OF im, of r c b 0] by simp
  have top: "?res ! (i + m) = res ! (i + m)"
    using Suc.IH[OF im im'] by simp
  have "fold (\<lambda>j res. res[i + j := Fr_add r (res ! (i + j)) (Fr_mul r c (b ! j))]) [0..<Suc m] res
          = ?res[i + m := Fr_add r (res ! (i + m)) (Fr_mul r c (b ! m))]"
    by (simp add: top)
  then have "fold (\<lambda>j res. res[i + j := Fr_add r (res ! (i + j)) (Fr_mul r c (b ! j))]) [0..<Suc m] res ! k
          = (if k = i + m then Fr_add r (res ! (i + m)) (Fr_mul r c (b ! m)) else ?res ! k)"
    using Suc.prems(2) len by (simp add: nth_list_update)
  also have "\<dots> = (if i \<le> k \<and> k < i + Suc m then Fr_add r (res ! k) (Fr_mul r c (b ! (k - i))) else res ! k)"
    using Suc.IH[OF im Suc.prems(2)] by (auto simp: less_Suc_eq)
  finally show ?case .
qed

lemma mulPoly_outer_nth:
  "b \<noteq> [] \<Longrightarrow> n + length b \<le> length res + 1 \<Longrightarrow> k < length res \<Longrightarrow>
   fold (\<lambda>i res. fold (\<lambda>j res. res[i + j := Fr_add r (res ! (i + j)) (Fr_mul r (a ! i) (b ! j))])
                         [0..<length b] res) [0..<n] res ! k mod r
     = (res ! k + (\<Sum>i<n. if i \<le> k \<and> k < i + length b then a ! i * b ! (k - i) else 0)) mod r"
proof (induction n arbitrary: k)
  case 0
  then show ?case by simp
next
  case (Suc n)
  let ?res = "fold (\<lambda>i res. fold (\<lambda>j res. res[i + j := Fr_add r (res ! (i + j)) (Fr_mul r (a ! i) (b ! j))])
                         [0..<length b] res) [0..<n] res"
  let ?t = "\<lambda>i. if i \<le> k \<and> k < i + length b then a ! i * b ! (k - i) else 0"
  have n: "n + length b \<le> length res + 1"
    using Suc.prems(2) by simp
  have len: "length ?res = length res"
    using mulPoly_outer[OF Suc.prems(1) n, of r a 0] by simp
  have nb: "n + length b \<le> length ?res" and k: "k < length ?res"
    using Suc.prems(2,3) len by simp_all
  have "fold (\<lambda>j res. res[n + j := Fr_add r (res ! (n + j)) (Fr_mul r (a ! n) (b ! j))]) [0..<length b] ?res ! k mod r
          = (?res ! k + ?t n) mod r"
    unfolding mulPoly_inner_nth[OF nb k]
    by (simp add: Fr_add_def Fr_mul_def mod_simps)
  also have "\<dots> = ((res ! k + (\<Sum>i<n. ?t i)) + ?t n) mod r"
    using Suc.IH[OF Suc.prems(1) n Suc.prems(3)] by (rule mod_add_cong) simp
  also have "(res ! k + (\<Sum>i<n. ?t i)) + ?t n = res ! k + (\<Sum>i<Suc n. ?t i)"
    by simp
  finally show ?case
    by simp
qed

lemma mulPoly_outer_canonical:
  "b \<noteq> [] \<Longrightarrow> n + length b \<le> length res + 1 \<Longrightarrow> \<forall>k < length res. res ! k mod r = res ! k \<Longrightarrow>
   k < length res \<Longrightarrow>
   fold (\<lambda>i res. fold (\<lambda>j res. res[i + j := Fr_add r (res ! (i + j)) (Fr_mul r (a ! i) (b ! j))])
                         [0..<length b] res) [0..<n] res ! k mod r
   = fold (\<lambda>i res. fold (\<lambda>j res. res[i + j := Fr_add r (res ! (i + j)) (Fr_mul r (a ! i) (b ! j))])
                         [0..<length b] res) [0..<n] res ! k"
proof (induction n arbitrary: k)
  case 0
  then show ?case by simp
next
  case (Suc n)
  let ?res = "fold (\<lambda>i res. fold (\<lambda>j res. res[i + j := Fr_add r (res ! (i + j)) (Fr_mul r (a ! i) (b ! j))])
                         [0..<length b] res) [0..<n] res"
  have n: "n + length b \<le> length res + 1"
    using Suc.prems(2) by simp
  have len: "length ?res = length res"
    using mulPoly_outer[OF Suc.prems(1) n, of r a 0] by simp
  have nb: "n + length b \<le> length ?res" and k: "k < length ?res"
    using Suc.prems(2,4) len by simp_all
  have "?res ! k mod r = ?res ! k"
    by (rule Suc.IH[OF Suc.prems(1) n Suc.prems(3,4)])
  then have "fold (\<lambda>j res. res[n + j := Fr_add r (res ! (n + j)) (Fr_mul r (a ! n) (b ! j))]) [0..<length b] ?res ! k mod r
      = fold (\<lambda>j res. res[n + j := Fr_add r (res ! (n + j)) (Fr_mul r (a ! n) (b ! j))]) [0..<length b] ?res ! k"
    unfolding mulPoly_inner_nth[OF nb k] by (simp add: Fr_add_def)
  then show ?case
    by simp
qed

lemma mulPoly_loop_nth:
  assumes "b \<noteq> []" and "k < length a + length b - 1"
  shows "mulPoly_loop r a b (replicate (length a + length b - 1) 0) ! k
           = (\<Sum>i<length a. if i \<le> k \<and> k < i + length b then a ! i * b ! (k - i) else 0) mod r"
proof -
  let ?res0 = "replicate (length a + length b - 1) (0 :: int)"
  have l: "length a + length b \<le> length ?res0 + 1"
    using assms(1) by (cases b) simp_all
  have k: "k < length ?res0"
    using assms(2) by simp
  have c: "\<forall>k < length ?res0. ?res0 ! k mod r = ?res0 ! k"
    by simp
  have "mulPoly_loop r a b ?res0 ! k = mulPoly_loop r a b ?res0 ! k mod r"
    unfolding mulPoly_loop_def by (rule mulPoly_outer_canonical[OF assms(1) l c k, symmetric])
  also have "\<dots> = (?res0 ! k + (\<Sum>i<length a. if i \<le> k \<and> k < i + length b then a ! i * b ! (k - i) else 0)) mod r"
    unfolding mulPoly_loop_def by (rule mulPoly_outer_nth[OF assms(1) l k])
  finally show ?thesis
    using assms(2) by simp
qed

lemma evalPolyAt_drop:
  assumes "j < length f"
  shows "evalPolyAt r (drop j f) u = (evalPolyAt r (drop (Suc j) f) u * u + f ! j) mod r"
proof -
  have "drop j f = f ! j # drop (Suc j) f"
    using assms by (simp add: Cons_nth_drop_Suc)
  then show ?thesis
    by (simp only: evalPolyAt_Cons)
qed

lemma division_coefficients:
  assumes "f \<noteq> []"
  shows "mulPoly r (snd (synthetic_division r f u)) [Fr_neg r u, 1]
           = Inr (addPoly r f [Fr_neg r (evalPolyAt r f u)])"
proof -
  let ?q = "quotient_of r f u"
  let ?b = "[Fr_neg r u, 1]"
  let ?n = "length f"
  let ?e = "\<lambda>j. evalPolyAt r (drop j f) u"
  define L where "L = mulPoly_loop r ?q ?b (replicate (length ?q + length ?b - 1) 0)"
  have n: "0 < ?n"
    using assms by simp
  have lq: "length ?q = ?n - 1"
    by (rule length_quotient_of)
  have "length L = length ?q + length ?b - 1"
    unfolding L_def by (rule mulPoly_loop_value(1)) simp
  then have lL: "length L = ?n"
    using lq n by simp
  have m: "mulPoly r ?q ?b = Inr L"
    unfolding L_def by (rule mulPoly_Inr) simp
  have q: "?q ! i = ?e (Suc i)" if "i < ?n - 1" for i
    using that by (intro nth_quotient_of) simp
  have en: "?e ?n = 0"
    by (simp add: evalPolyAt_Nil)
  have nth: "L ! k = addPoly r f [Fr_neg r (evalPolyAt r f u)] ! k" if k: "k < ?n" for k
  proof -
    let ?t = "\<lambda>i. if i \<le> k \<and> k < i + length ?b then ?q ! i * ?b ! (k - i) else 0"
    have "k < length ?q + length ?b - 1"
      using k lq by simp
    then have "L ! k = (\<Sum>i<length ?q. ?t i) mod r"
      unfolding L_def by (intro mulPoly_loop_nth) simp_all
    then have Lk: "L ! k = (\<Sum>i<?n - 1. ?t i) mod r"
      by (simp only: lq)
    have first: "(\<Sum>i<?n - 1. if i = k then ?q ! k * Fr_neg r u else 0) = ?e (Suc k) * Fr_neg r u"
    proof (cases "k < ?n - 1")
      case True
      then show ?thesis by (simp add: q)
    next
      case False
      then have "Suc k = ?n" using k by simp
      then show ?thesis using False en by simp
    qed
    have ek: "?e k = (?e (Suc k) * u + f ! k) mod r"
      by (rule evalPolyAt_drop[OF k])
    show ?thesis
    proof (cases k)
      case 0
      have "?t i = (if i = k then ?q ! k * Fr_neg r u else 0)" for i
        using 0 by auto
      then have "(\<Sum>i<?n - 1. ?t i) = ?e (Suc k) * Fr_neg r u"
        using first by simp
      then have "L ! k = (?e (Suc k) * Fr_neg r u) mod r"
        using Lk by simp
      also have "\<dots> = (?e (Suc k) * (- u)) mod r"
        unfolding Fr_neg_def by (simp only: mod_mult_right_eq)
      also have "\<dots> = (f ! k - (?e (Suc k) * u + f ! k)) mod r"
        by (simp add: algebra_simps)
      also have "\<dots> = (f ! k - ?e k) mod r"
        unfolding ek by (simp only: mod_diff_right_eq)
      also have "\<dots> = (f ! k + (- ?e k) mod r) mod r"
        by (simp add: mod_simps)
      finally show ?thesis
        using 0 n by (simp add: addPoly_map Fr_add_def Fr_neg_def)
    next
      case (Suc k')
      have k': "k' < ?n - 1"
        using k Suc by simp
      have "?t i = (if i = k then ?q ! k * Fr_neg r u else 0) + (if i = k' then ?q ! k' else 0)" for i
        using Suc by auto
      then have "(\<Sum>i<?n - 1. ?t i)
           = (\<Sum>i<?n - 1. if i = k then ?q ! k * Fr_neg r u else 0) + (\<Sum>i<?n - 1. if i = k' then ?q ! k' else 0)"
        by (simp add: sum.distrib)
      also have "(\<Sum>i<?n - 1. if i = k' then ?q ! k' else 0) = ?e k"
        using k' Suc by (simp add: q)
      finally have "L ! k = (?e (Suc k) * Fr_neg r u + ?e k) mod r"
        using Lk first by simp
      also have "\<dots> = ((?e (Suc k) * Fr_neg r u) mod r + ?e k) mod r"
        by (simp only: mod_add_left_eq)
      also have "(?e (Suc k) * Fr_neg r u) mod r = (?e (Suc k) * (- u)) mod r"
        unfolding Fr_neg_def by (simp only: mod_mult_right_eq)
      also have "((?e (Suc k) * (- u)) mod r + ?e k) mod r = (?e (Suc k) * (- u) + ?e k) mod r"
        by (simp only: mod_add_left_eq)
      also have "\<dots> = (?e (Suc k) * (- u) + (?e (Suc k) * u + f ! k)) mod r"
        unfolding ek by (simp only: mod_add_right_eq)
      also have "\<dots> = f ! k mod r"
        by (simp add: algebra_simps)
      finally show ?thesis
        using Suc k by (simp add: addPoly_map Fr_add_def)
    qed
  qed
  have "max ?n (Suc 0) = ?n"
    using assms by (cases f) simp_all
  then have "L = addPoly r f [Fr_neg r (evalPolyAt r f u)]"
    using lL by (intro nth_equalityI) (simp_all add: length_addPoly nth)
  then show ?thesis
    using m by (simp add: synthetic_division_quotient)
qed

section \<open>Uniqueness of interpolation over a field of prime order\<close>

lemma prime_order_dvd_mult:
  assumes "prime_order r" and "r dvd a * b"
  shows "r dvd a \<or> r dvd b"
proof (cases "r dvd a")
  case True
  then show ?thesis by simp
next
  case False
  then have "a mod r \<noteq> 0"
    by (simp add: mod_eq_0_iff_dvd)
  then have "gcd (a mod r) r = 1"
    by (rule prime_order_gcd[OF assms(1)])
  then have "gcd r a = 1"
    by (metis gcd.commute gcd_red_int)
  then have "coprime r a"
    by (simp add: coprime_iff_gcd_eq_1)
  then have "r dvd b"
    using assms(2) by (simp add: coprime_dvd_mult_right_iff)
  then show ?thesis by simp
qed

lemma evalPolyAt_zero_coeffs:
  "\<forall>c \<in> set cs. c mod r = 0 \<Longrightarrow> evalPolyAt r cs x = 0"
proof (induction cs)
  case Nil
  then show ?case by (simp add: evalPolyAt_Nil)
next
  case (Cons c cs)
  then show ?case by (simp add: evalPolyAt_Cons)
qed

lemma quotient_zero_coeffs:
  "\<forall>e \<in> set (quotient_of r h u). e = 0 \<Longrightarrow> \<forall>c \<in> set (tl h). c mod r = 0"
proof (induction r h u rule: quotient_of.induct)
  case (3 r c d ds u)
  then have e: "evalPolyAt r (d # ds) u = 0"
    and q: "\<forall>e \<in> set (quotient_of r (d # ds) u). e = 0"
    by simp_all
  from q have ds: "\<forall>c \<in> set ds. c mod r = 0"
    using "3.IH" by simp
  then have "evalPolyAt r ds u = 0"
    by (rule evalPolyAt_zero_coeffs)
  then have "d mod r = 0"
    using e by (simp add: evalPolyAt_Cons)
  with ds show ?case by simp
qed simp_all

lemma roots_force_zero:
  assumes "prime_order r"
  shows "length h = length xs \<Longrightarrow> distinct (map (\<lambda>x. x mod r) xs) \<Longrightarrow>
         \<forall>x \<in> set xs. evalPolyAt r h x = 0 \<Longrightarrow> \<forall>c \<in> set h. c mod r = 0"
proof (induction xs arbitrary: h)
  case Nil
  then show ?case by simp
next
  case (Cons x0 xs)
  from Cons.prems(1) obtain c cs where h: "h = c # cs"
    by (cases h) simp_all
  let ?q = "quotient_of r h x0"
  have lq: "length ?q = length xs"
    using Cons.prems(1) by (simp add: length_quotient_of)
  have dq: "distinct (map (\<lambda>x. x mod r) xs)"
    using Cons.prems(2) by simp
  have zq: "\<forall>x \<in> set xs. evalPolyAt r ?q x = 0"
  proof
    fix x assume x: "x \<in> set xs"
    have "(evalPolyAt r ?q x * (x - x0)) mod r = (evalPolyAt r h x - evalPolyAt r h x0) mod r"
      by (rule quotient_of_identity)
    also have "\<dots> = 0"
      using Cons.prems(3) x by simp
    finally have "r dvd evalPolyAt r ?q x * (x - x0)"
      by (simp add: mod_eq_0_iff_dvd)
    moreover have "x0 mod r \<notin> (\<lambda>x. x mod r) ` set xs"
      using Cons.prems(2) by simp
    then have "x mod r \<noteq> x0 mod r"
      using x by (metis imageI)
    then have "\<not> r dvd (x - x0)"
      using mod_eq_dvd_iff[of x r x0] by blast
    ultimately have "r dvd evalPolyAt r ?q x"
      using prime_order_dvd_mult[OF assms, of "evalPolyAt r ?q x" "x - x0"] by blast
    then have "evalPolyAt r ?q x mod r = 0"
      by (simp add: mod_eq_0_iff_dvd)
    then show "evalPolyAt r ?q x = 0"
      by (simp add: evalPolyAt_mod)
  qed
  have iq: "\<forall>e \<in> set ?q. e mod r = 0"
    by (rule Cons.IH[OF lq dq zq])
  have "\<forall>e \<in> set ?q. e = 0"
  proof
    fix e assume e: "e \<in> set ?q"
    then obtain j where j: "j < length ?q" and ej: "e = ?q ! j"
      by (auto simp: in_set_conv_nth)
    from j have "Suc j < length h"
      by (simp add: length_quotient_of)
    then have "e = evalPolyAt r (drop (Suc j) h) x0"
      using ej by (simp only: nth_quotient_of)
    then have "e mod r = e"
      by (simp only: evalPolyAt_mod)
    moreover have "e mod r = 0"
      using iq e by blast
    ultimately show "e = 0"
      by simp
  qed
  then have cs: "\<forall>c \<in> set cs. c mod r = 0"
    using quotient_zero_coeffs[of r h x0] h by simp
  then have "evalPolyAt r cs x0 = 0"
    by (rule evalPolyAt_zero_coeffs)
  moreover have "evalPolyAt r h x0 = 0"
    using Cons.prems(3) by simp
  ultimately have "c mod r = 0"
    by (simp add: h evalPolyAt_Cons)
  with cs show ?case
    by (simp add: h)
qed

lemma interpolation_unique:
  assumes "prime_order r"
    and "length g = length xs" and "length f = length xs"
    and "distinct (map (\<lambda>x. x mod r) xs)"
    and "\<forall>x \<in> set xs. evalPolyAt r g x = evalPolyAt r f x"
    and "\<forall>c \<in> set g. c mod r = c" and "\<forall>c \<in> set f. c mod r = c"
  shows "g = f"
proof -
  let ?h = "map2 (-) g f"
  have lh: "length ?h = length xs"
    using assms(2,3) by simp
  have "pv ?h x = pv g x - pv f x" for x
    using assms(2,3) by (simp add: pv_def sum_subtractf left_diff_distrib)
  then have "evalPolyAt r ?h x = (evalPolyAt r g x - evalPolyAt r f x) mod r" for x
    by (simp add: evalPolyAt_pv mod_simps)
  then have "\<forall>x \<in> set xs. evalPolyAt r ?h x = 0"
    using assms(5) by simp
  then have z: "\<forall>c \<in> set ?h. c mod r = 0"
    by (rule roots_force_zero[OF assms(1) lh assms(4)])
  show ?thesis
  proof (rule nth_equalityI)
    show "length g = length f"
      using assms(2,3) by simp
  next
    fix i assume i: "i < length g"
    then have "?h ! i \<in> set ?h"
      using assms(2,3) by (intro nth_mem) simp
    then have "(g ! i - f ! i) mod r = 0"
      using z i assms(2,3) by auto
    then have "g ! i mod r = f ! i mod r"
      by (simp add: mod_eq_dvd_iff mod_eq_0_iff_dvd)
    moreover have "g ! i mod r = g ! i" "f ! i mod r = f ! i"
      using assms(6,7) i assms(2,3) by simp_all
    ultimately show "g ! i = f ! i"
      by simp
  qed
qed

section \<open>Lagrange interpolation\<close>

lemma basis_val_Nil: "basis_val points i [] x = 1"
  by (simp add: basis_val_def)

lemma basis_val_Cons:
  "basis_val points i (j # js) x =
     (if j \<noteq> i then (x - fst (points ! j)) * basis_val points i js x else basis_val points i js x)"
  by (simp add: basis_val_def)

lemma evalPolyAt_linear: "evalPolyAt r [Fr_neg r a, 1] x = (x - a) mod r"
proof -
  have "evalPolyAt r [Fr_neg r a, 1] x = (1 mod r * x - a) mod r"
    by (simp add: evalPolyAt_Cons evalPolyAt_Nil Fr_neg_def mod_simps)
  also have "\<dots> = ((1 mod r * x) mod r - a) mod r"
    by (simp only: mod_diff_left_eq)
  also have "(1 mod r * x) mod r = x mod r"
    by (simp only: mod_mult_left_eq mult_1)
  finally show ?thesis
    by (simp only: mod_diff_left_eq)
qed

lemma evalPolyAt_const: "evalPolyAt r [c] x = c mod r"
  by (simp add: evalPolyAt_Cons evalPolyAt_Nil)

lemma basis_loop_value:
  "\<exists>B d. basis_loop r points i js basis den = Inr (B, d)
     \<and> length B = length basis + length (filter (\<lambda>j. j \<noteq> i) js)
     \<and> (\<forall>x. evalPolyAt r B x = (evalPolyAt r basis x * basis_val points i js x) mod r)
     \<and> d mod r = (den * basis_val points i js (fst (points ! i))) mod r"
proof (induction js arbitrary: basis den)
  case Nil
  then show ?case
    by (simp add: basis_val_Nil evalPolyAt_mod)
next
  case (Cons j js)
  show ?case
  proof (cases "i = j")
    case True
    then show ?thesis
      using Cons[of basis den] by (simp add: basis_val_Cons)
  next
    case False
    let ?b = "[Fr_neg r (fst (points ! j)), 1]"
    let ?basis = "mulPoly_loop r basis ?b (replicate (length basis + length ?b - 1) 0)"
    let ?den = "Fr_mul r den (Fr_sub r (fst (points ! i)) (fst (points ! j)))"
    have m: "mulPoly r basis ?b = Inr ?basis"
      by (rule mulPoly_Inr) simp
    have lb: "length ?basis = length basis + 1"
      using mulPoly_loop_value(1)[of ?b r basis] by simp
    have eb: "evalPolyAt r ?basis x = (evalPolyAt r basis x * (x - fst (points ! j))) mod r" for x
      using mulPoly_loop_value(2)[of ?b r basis x]
      by (simp only: evalPolyAt_linear mod_mult_right_eq) simp
    obtain B d where
      1: "basis_loop r points i js ?basis ?den = Inr (B, d)"
      and 2: "length B = length ?basis + length (filter (\<lambda>j. j \<noteq> i) js)"
      and 3: "\<forall>x. evalPolyAt r B x = (evalPolyAt r ?basis x * basis_val points i js x) mod r"
      and 4: "d mod r = (?den * basis_val points i js (fst (points ! i))) mod r"
      using Cons[of ?basis ?den] by blast
    have e3: "evalPolyAt r B x = (evalPolyAt r basis x * basis_val points i (j # js) x) mod r" for x
    proof -
      have "evalPolyAt r B x = (evalPolyAt r ?basis x * basis_val points i js x) mod r"
        using 3 by blast
      also have "\<dots> = ((evalPolyAt r basis x * (x - fst (points ! j))) * basis_val points i js x) mod r"
        unfolding eb by (simp only: mod_mult_left_eq)
      finally show ?thesis
        using False by (simp add: basis_val_Cons mult.assoc)
    qed
    have e4: "d mod r = (den * basis_val points i (j # js) (fst (points ! i))) mod r"
    proof -
      have "?den mod r = (den * (fst (points ! i) - fst (points ! j))) mod r"
        by (simp add: Fr_mul_def Fr_sub_def mod_simps)
      then have "(?den * basis_val points i js (fst (points ! i))) mod r
                  = ((den * (fst (points ! i) - fst (points ! j))) * basis_val points i js (fst (points ! i))) mod r"
        by (rule mod_mult_cong) simp
      then show ?thesis
        using 4 False by (simp add: basis_val_Cons mult.assoc)
    qed
    show ?thesis
      using False m 1 2 lb e3 e4 by simp
  qed
qed

lemma basis_val_zero:
  "k \<in> set js \<Longrightarrow> k \<noteq> i \<Longrightarrow> basis_val points i js (fst (points ! k)) = 0"
proof (induction js)
  case Nil
  then show ?case by simp
next
  case (Cons j js)
  then show ?case
    by (cases "j = k") (auto simp: basis_val_Cons)
qed

lemma basis_val_nonzero:
  assumes "prime_order r" and "distinct (map (\<lambda>p. fst p mod r) points)" and "i < length points"
  shows "\<forall>j \<in> set js. j < length points \<Longrightarrow>
         \<not> r dvd basis_val points i js (fst (points ! i))"
proof (induction js)
  case Nil
  have "1 < r"
    using assms(1) by (simp add: prime_order_def)
  then have "\<not> r dvd 1"
    by (simp add: zdvd_not_zless)
  then show ?case
    by (simp add: basis_val_Nil)
next
  case (Cons j js)
  then have j: "j < length points" and ih: "\<not> r dvd basis_val points i js (fst (points ! i))"
    by simp_all
  show ?case
  proof (cases "j = i")
    case True
    then show ?thesis
      using ih by (simp add: basis_val_Cons)
  next
    case False
    have "fst (points ! i) mod r \<noteq> fst (points ! j) mod r"
      using nth_eq_iff_index_eq[OF assms(2), of i j] assms(3) j False by simp
    then have "\<not> r dvd (fst (points ! i) - fst (points ! j))"
      using mod_eq_dvd_iff[of "fst (points ! i)" r "fst (points ! j)"] by blast
    then have "\<not> r dvd (fst (points ! i) - fst (points ! j)) * basis_val points i js (fst (points ! i))"
      using ih prime_order_dvd_mult[OF assms(1),
          of "fst (points ! i) - fst (points ! j)" "basis_val points i js (fst (points ! i))"]
      by blast
    then show ?thesis
      using False by (simp add: basis_val_Cons)
  qed
qed

lemma length_filter_neq:
  assumes "i < n"
  shows "length (filter (\<lambda>j. j \<noteq> i) [0..<n]) = n - 1"
proof -
  have "length (filter (\<lambda>j. j \<noteq> i) [0..<n]) = card ({j. j \<noteq> i} \<inter> set [0..<n])"
    by (rule distinct_length_filter) simp
  also have "{j. j \<noteq> i} \<inter> set [0..<n] = {0..<n} - {i}"
    by auto
  also have "card ({0..<n} - {i}) = n - 1"
    using assms by simp
  finally show ?thesis .
qed

lemma terms_loop_value:
  assumes p: "prime_order r" and d: "distinct (map (\<lambda>p. fst p mod r) points)"
  shows "distinct is \<Longrightarrow> \<forall>i \<in> set is. i < length points \<Longrightarrow>
     \<exists>res. terms_loop r points is result = Inr res
       \<and> length res = (if is = [] then length result else max (length result) (length points))
       \<and> (is \<noteq> [] \<longrightarrow> (\<forall>c \<in> set res. c mod r = c))
       \<and> (\<forall>k < length points.
             evalPolyAt r res (fst (points ! k))
               = (evalPolyAt r result (fst (points ! k))
                    + (if k \<in> set is then snd (points ! k) else 0)) mod r)"
proof (induction "is" arbitrary: result)
  case Nil
  then show ?case
    by (simp add: evalPolyAt_mod)
next
  case (Cons i "is")
  let ?n = "length points"
  let ?X = "\<lambda>k. fst (points ! k)"
  let ?Y = "\<lambda>k. snd (points ! k)"
  let ?bv = "basis_val points i [0..<?n]"
  have r1: "1 < r"
    using p by (simp add: prime_order_def)
  have i: "i < ?n" and di: "i \<notin> set is" and dis: "distinct is"
    and bis: "\<forall>i \<in> set is. i < ?n"
    using Cons.prems by simp_all
  obtain B dd where
    bl: "basis_loop r points i [0..<?n] [1] 1 = Inr (B, dd)"
    and lB0: "length B = length [1 :: int] + length (filter (\<lambda>j. j \<noteq> i) [0..<?n])"
    and eB0: "\<forall>x. evalPolyAt r B x = (evalPolyAt r [1] x * ?bv x) mod r"
    and dB0: "dd mod r = (1 * ?bv (?X i)) mod r"
    using basis_loop_value[of r points i "[0..<?n]" "[1]" 1] by blast
  have lB: "length B = ?n"
    using lB0 i by (simp add: length_filter_neq)
  have eB: "evalPolyAt r B x = ?bv x mod r" for x
    using eB0 r1 by (simp add: evalPolyAt_const)
  have dB: "dd mod r = ?bv (?X i) mod r"
    using dB0 by simp
  have "\<not> r dvd ?bv (?X i)"
    by (rule basis_val_nonzero[OF p d i]) simp
  then have "dd mod r \<noteq> 0"
    using dB by (simp add: mod_eq_0_iff_dvd)
  then obtain iv where iv: "invert dd r = Inr iv" and iv1: "(iv * dd) mod r = 1"
    using invert_correct[OF p] by blast
  let ?t = "Fr_mul r (?Y i) iv"
  define T where "T = mulPoly_loop r B [?t] (replicate (length B + length [?t] - 1) 0)"
  have mT: "mulPoly r B [?t] = Inr T"
    unfolding T_def by (rule mulPoly_Inr) simp
  have lT: "length T = ?n"
    unfolding T_def using mulPoly_loop_value(1)[of "[?t]" r B] lB by simp
  have eT: "evalPolyAt r T x = (?bv x * (?Y i * iv)) mod r" for x
  proof -
    have "evalPolyAt r T x = (evalPolyAt r B x * evalPolyAt r [?t] x) mod r"
      unfolding T_def by (rule mulPoly_loop_value(2)) simp
    also have "\<dots> = ((?bv x mod r) * ((?Y i * iv) mod r)) mod r"
      by (simp add: eB evalPolyAt_const Fr_mul_def)
    also have "\<dots> = (?bv x * (?Y i * iv)) mod r"
      by (simp only: mod_mult_eq)
    finally show ?thesis .
  qed
  have eTi: "evalPolyAt r T (?X i) = ?Y i mod r"
  proof -
    have "(?bv (?X i) * (?Y i * iv)) mod r = (dd * (?Y i * iv)) mod r"
      using dB by (metis mod_mult_left_eq)
    also have "dd * (?Y i * iv) = ?Y i * (iv * dd)"
      by (simp add: mult_ac)
    also have "(?Y i * (iv * dd)) mod r = (?Y i * ((iv * dd) mod r)) mod r"
      by (simp only: mod_mult_right_eq)
    finally have "(?bv (?X i) * (?Y i * iv)) mod r = ?Y i mod r"
      by (simp add: iv1)
    then show ?thesis
      by (simp only: eT)
  qed
  have eTk: "evalPolyAt r T (?X k) = 0" if "k < ?n" "k \<noteq> i" for k
  proof -
    have "?bv (?X k) = 0"
      using that by (intro basis_val_zero) simp_all
    then show ?thesis
      by (simp add: eT)
  qed
  let ?result = "addPoly r result T"
  have step: "terms_loop r points (i # is) result = terms_loop r points is ?result"
    using bl iv mT by (simp add: Fr_inv_def)
  obtain res where
    t: "terms_loop r points is ?result = Inr res"
    and lr: "length res = (if is = [] then length ?result else max (length ?result) ?n)"
    and cr: "is \<noteq> [] \<longrightarrow> (\<forall>c \<in> set res. c mod r = c)"
    and er: "\<forall>k < ?n. evalPolyAt r res (?X k)
               = (evalPolyAt r ?result (?X k) + (if k \<in> set is then ?Y k else 0)) mod r"
    using Cons.IH[OF dis bis, of ?result] by blast
  have len: "length res = max (length result) ?n"
    using lr lT by (simp add: length_addPoly)
  have can: "\<forall>c \<in> set res. c mod r = c"
  proof (cases "is = []")
    case True
    then have "res = ?result"
      using t by simp
    then show ?thesis
      using addPoly_canonical by blast
  next
    case False
    then show ?thesis
      using cr by simp
  qed
  have ev: "evalPolyAt r res (?X k)
              = (evalPolyAt r result (?X k) + (if k \<in> set (i # is) then ?Y k else 0)) mod r"
    if k: "k < ?n" for k
  proof (cases "k = i")
    case True
    have "evalPolyAt r res (?X i) = (evalPolyAt r ?result (?X i) + 0) mod r"
      using er i di by simp
    also have "\<dots> = ((evalPolyAt r result (?X i) + ?Y i mod r) mod r) mod r"
      by (simp add: evalPolyAt_addPoly eTi)
    also have "\<dots> = (evalPolyAt r result (?X i) + ?Y i) mod r"
      by (simp add: mod_simps)
    finally show ?thesis
      using True by simp
  next
    case False
    let ?z = "if k \<in> set is then ?Y k else 0"
    have "evalPolyAt r res (?X k) = (evalPolyAt r ?result (?X k) + ?z) mod r"
      using er k by simp
    also have "evalPolyAt r ?result (?X k) = evalPolyAt r result (?X k) mod r"
      by (simp add: evalPolyAt_addPoly eTk[OF k False])
    also have "(evalPolyAt r result (?X k) mod r + ?z) mod r = (evalPolyAt r result (?X k) + ?z) mod r"
      by (simp only: mod_add_left_eq)
    finally show ?thesis
      using False by simp
  qed
  show ?case
    unfolding step using t len can ev by simp
qed

lemma pop_zeros_id: "result \<noteq> [] \<Longrightarrow> last result \<noteq> 0 \<Longrightarrow> pop_zeros result = result"
  by (subst pop_zeros.simps) (simp add: last_conv_nth)

lemma evalPolyAt_map_mod: "evalPolyAt r (map (\<lambda>c. c mod r) f) x = evalPolyAt r f x"
  by (induction f) (simp_all add: evalPolyAt_Nil evalPolyAt_Cons mod_simps)

lemma interpolation_round_trip:
  assumes p: "prime_order r"
    and len: "length xs = length f"
    and ne: "f \<noteq> []"
    and d: "distinct (map (\<lambda>x. x mod r) xs)"
    and lead: "last f mod r \<noteq> 0"
  shows "lagrangeInterpolation r (map (\<lambda>x. (x, evalPolyAt r f x)) xs) = Inr (map (\<lambda>c. c mod r) f)"
proof -
  let ?points = "map (\<lambda>x. (x, evalPolyAt r f x)) xs"
  let ?g = "map (\<lambda>c. c mod r) f"
  have n: "length ?points = length xs" and n1: "1 \<le> length xs"
    using len ne by (simp_all add: Suc_le_eq)
  have d': "distinct (map (\<lambda>p. fst p mod r) ?points)"
    using d by (simp add: comp_def)
  obtain res where
    t: "terms_loop r ?points [0..<length ?points] [0] = Inr res"
    and lr: "length res = (if [0..<length ?points] = [] then length [0 :: int]
                           else max (length [0 :: int]) (length ?points))"
    and cr: "[0..<length ?points] \<noteq> [] \<longrightarrow> (\<forall>c \<in> set res. c mod r = c)"
    and er: "\<forall>k < length ?points. evalPolyAt r res (fst (?points ! k))
               = (evalPolyAt r [0] (fst (?points ! k))
                   + (if k \<in> set [0..<length ?points] then snd (?points ! k) else 0)) mod r"
    using terms_loop_value[OF p d', of "[0..<length ?points]" "[0]"] by auto
  have xne: "xs \<noteq> []"
    using len ne by auto
  have lres: "length res = length xs"
    using lr n1 xne by simp
  have cres: "\<forall>c \<in> set res. c mod r = c"
    using cr xne by simp
  have eres: "\<forall>x \<in> set xs. evalPolyAt r res x = evalPolyAt r ?g x"
  proof
    fix x assume "x \<in> set xs"
    then obtain k where k: "k < length xs" and x: "x = xs ! k"
      by (auto simp: in_set_conv_nth)
    have "evalPolyAt r res x = (evalPolyAt r [0] x + evalPolyAt r f x) mod r"
      using er k x by simp
    also have "\<dots> = evalPolyAt r f x"
      by (simp add: evalPolyAt_const evalPolyAt_mod)
    finally show "evalPolyAt r res x = evalPolyAt r ?g x"
      by (simp only: evalPolyAt_map_mod)
  qed
  have "res = ?g"
    by (rule interpolation_unique[OF p lres _ d eres cres]) (simp_all add: len)
  moreover have "pop_zeros ?g = ?g"
    using ne lead by (intro pop_zeros_id) (simp_all add: last_map)
  ultimately show ?thesis
    using t by (simp add: lagrangeInterpolation_def)
qed

section \<open>The range checks of the curve library\<close>

text \<open>
  The generator may be multiplied by a scalar of \<open>1 .. r - 1\<close>, and by no other. Over
  a prime order, for a secret in that range, every power of the secret reduces to a
  scalar of the range, so the loops of the setups return the ladders of powers.
\<close>

lemma G1_multiply_BASE:
  "1 \<le> s \<Longrightarrow> s < r \<Longrightarrow> G1_multiply r G1_BASE s = Inr (PointG1 s)"
  by (simp add: G1_BASE_def)

lemma G2_multiply_BASE:
  "1 \<le> s \<Longrightarrow> s < r \<Longrightarrow> G2_multiply r G2_BASE s = Inr (PointG2 s)"
  by (simp add: G2_BASE_def)

lemma in_range_not_dvd:
  assumes "1 \<le> (a :: int)" and "a < r"
  shows "\<not> r dvd a"
proof
  assume "r dvd a"
  moreover have "0 < a"
    using assms(1) by simp
  ultimately have "r \<le> a"
    by (rule zdvd_imp_le)
  then show False
    using assms(2) by simp
qed

lemma power_not_dvd:
  assumes "prime_order r" and "\<not> r dvd a"
  shows "\<not> r dvd a ^ n"
proof (induction n)
  case 0
  have "1 < r"
    using assms(1) by (simp add: prime_order_def)
  then show ?case
    by (simp add: zdvd_not_zless)
next
  case (Suc n)
  then show ?case
    using prime_order_dvd_mult[OF assms(1), of a "a ^ n"] assms(2) by auto
qed

lemma mod_in_range:
  assumes "prime_order r" and "\<not> r dvd a"
  shows "1 \<le> a mod r" and "a mod r < r"
proof -
  have r: "1 < r"
    using assms(1) by (simp add: prime_order_def)
  then have "0 \<le> a mod r" and lt: "a mod r < r"
    by simp_all
  moreover have "a mod r \<noteq> 0"
    using assms(2) by (simp add: mod_eq_0_iff_dvd)
  ultimately show "1 \<le> a mod r"
    by linarith
  show "a mod r < r"
    by (rule lt)
qed

lemma ladder_loop_value:
  assumes "prime_order r" and "\<not> r dvd alpha"
  shows "ladder_loop r alpha is (alpha ^ k mod r) pp
           = Inr (pp @ map (\<lambda>j. PointG1 (alpha ^ (k + j) mod r)) [0..<length is])"
proof (induction "is" arbitrary: k pp)
  case Nil
  then show ?case by simp
next
  case (Cons i "is")
  have nd: "\<not> r dvd alpha ^ k"
    by (rule power_not_dvd[OF assms])
  have m: "G1_multiply r G1_BASE (alpha ^ k mod r) = Inr (PointG1 (alpha ^ k mod r))"
    by (rule G1_multiply_BASE) (rule mod_in_range[OF assms(1) nd])+
  have c: "Fr_mul r (alpha ^ k mod r) alpha = alpha ^ Suc k mod r"
    unfolding Fr_mul_def power_Suc by (metis mod_mult_left_eq mult.commute)
  have "map (\<lambda>j. PointG1 (alpha ^ (k + j) mod r)) [0..<Suc (length is)]
          = PointG1 (alpha ^ k mod r) # map (\<lambda>j. PointG1 (alpha ^ (Suc k + j) mod r)) [0..<length is]"
    by (simp add: map_upt_Suc del: upt_Suc)
  then show ?case
    using Cons[of "Suc k" "pp @ [PointG1 (alpha ^ k mod r)]"] m c by simp
qed

lemma Kzg_setup_value:
  assumes "prime_order r" and "1 \<le> alpha" and "alpha < r" and "0 < degree"
  shows "Kzg_setup r alpha degree =
           Inr \<lparr>Setup_pp = map (\<lambda>i. PointG1 (alpha ^ i mod r)) [0..<nat (degree + 1)],
                Setup_alpha_G2 = PointG2 alpha\<rparr>"
proof -
  have nd: "\<not> r dvd alpha"
    by (rule in_range_not_dvd[OF assms(2,3)])
  have r: "1 < r"
    using assms(1) by (simp add: prime_order_def)
  have "ladder_loop r alpha [0..<nat (degree + 1)] (alpha ^ 0 mod r) []
          = Inr ([] @ map (\<lambda>j. PointG1 (alpha ^ (0 + j) mod r)) [0..<length [0..<nat (degree + 1)]])"
    by (rule ladder_loop_value[OF assms(1) nd])
  then have l: "ladder_loop r alpha [0..<nat (degree + 1)] 1 []
          = Inr (map (\<lambda>i. PointG1 (alpha ^ i mod r)) [0..<nat (degree + 1)])"
    using r by simp
  show ?thesis
    using assms(4) l G2_multiply_BASE[OF assms(2,3)]
    by (simp add: Kzg_setup_def Kzg_protected_setup_def)
qed

lemma zk_ladder_loop_value:
  assumes "prime_order r" and "\<not> r dvd alpha"
  shows "zk_ladder_loop r alpha (PointG1 h) is (alpha ^ k mod r) pp_G1 pp_H
           = Inr (pp_G1 @ map (\<lambda>j. PointG1 (alpha ^ (k + j) mod r)) [0..<length is],
                  pp_H @ map (\<lambda>j. PointG1 ((h * alpha ^ (k + j)) mod r)) [0..<length is])"
proof (induction "is" arbitrary: k pp_G1 pp_H)
  case Nil
  then show ?case by simp
next
  case (Cons i "is")
  have nd: "\<not> r dvd alpha ^ k"
    by (rule power_not_dvd[OF assms])
  note rg = mod_in_range[OF assms(1) nd]
  have m: "G1_multiply r G1_BASE (alpha ^ k mod r) = Inr (PointG1 (alpha ^ k mod r))"
    by (rule G1_multiply_BASE) (rule rg)+
  have mh: "G1_multiply r (PointG1 h) (alpha ^ k mod r) = Inr (PointG1 ((h * alpha ^ k) mod r))"
    using rg by (simp add: mod_mult_right_eq)
  have c: "Fr_mul r (alpha ^ k mod r) alpha = alpha ^ Suc k mod r"
    unfolding Fr_mul_def power_Suc by (metis mod_mult_left_eq mult.commute)
  have 1: "map (\<lambda>j. PointG1 (alpha ^ (k + j) mod r)) [0..<Suc (length is)]
          = PointG1 (alpha ^ k mod r) # map (\<lambda>j. PointG1 (alpha ^ (Suc k + j) mod r)) [0..<length is]"
    by (simp add: map_upt_Suc del: upt_Suc)
  have 2: "map (\<lambda>j. PointG1 ((h * alpha ^ (k + j)) mod r)) [0..<Suc (length is)]
          = PointG1 ((h * alpha ^ k) mod r) # map (\<lambda>j. PointG1 ((h * alpha ^ (Suc k + j)) mod r)) [0..<length is]"
    by (simp add: map_upt_Suc del: upt_Suc)
  show ?case
    using Cons[of "Suc k" "pp_G1 @ [PointG1 (alpha ^ k mod r)]" "pp_H @ [PointG1 ((h * alpha ^ k) mod r)]"]
      m mh c 1 2 by simp
qed

lemma ZkKzg_setup_value:
  assumes "prime_order r" and "1 \<le> alpha" and "alpha < r" and "1 \<le> beta" and "beta < r"
    and "0 < degree"
  shows "ZkKzg_setup r alpha beta degree =
           Inr \<lparr>Zk_pp_G1 = map (\<lambda>i. PointG1 (alpha ^ i mod r)) [0..<nat (degree + 1)],
                Zk_pp_H = map (\<lambda>i. PointG1 ((beta * alpha ^ i) mod r)) [0..<nat (degree + 1)],
                Zk_alpha_G2 = PointG2 alpha,
                Zk_H = PointG1 beta\<rparr>"
proof -
  have nd: "\<not> r dvd alpha"
    by (rule in_range_not_dvd[OF assms(2,3)])
  have r: "1 < r"
    using assms(1) by (simp add: prime_order_def)
  have "zk_ladder_loop r alpha (PointG1 beta) [0..<nat (degree + 1)] (alpha ^ 0 mod r) [] []
          = Inr ([] @ map (\<lambda>j. PointG1 (alpha ^ (0 + j) mod r)) [0..<length [0..<nat (degree + 1)]],
                 [] @ map (\<lambda>j. PointG1 ((beta * alpha ^ (0 + j)) mod r)) [0..<length [0..<nat (degree + 1)]])"
    by (rule zk_ladder_loop_value[OF assms(1) nd])
  then have l: "zk_ladder_loop r alpha (PointG1 beta) [0..<nat (degree + 1)] 1 [] []
          = Inr (map (\<lambda>i. PointG1 (alpha ^ i mod r)) [0..<nat (degree + 1)],
                 map (\<lambda>i. PointG1 ((beta * alpha ^ i) mod r)) [0..<nat (degree + 1)])"
    using r by simp
  show ?thesis
    using assms(6) l G2_multiply_BASE[OF assms(2,3)] G1_multiply_BASE[OF assms(4,5)]
    by (simp add: ZkKzg_setup_def ZkKzg_protected_setup_def)
qed

lemma PolynomialCommitmentScheme_commit_loop_eq:
  "PolynomialCommitmentScheme_commit_loop r pp coefficients is com_f
     = commit_loop r pp coefficients is com_f"
  by (induction "is" arbitrary: com_f) (simp_all split: sum.splits)

lemma commit_length_mismatch:
  "length pp \<noteq> length f_coeffs \<Longrightarrow> Kzg_commit r pp f_coeffs = Inl AssertionError"
  "length pp_G1 \<noteq> length f_coeffs \<or> length pp_H \<noteq> length r_coeffs \<Longrightarrow>
     ZkKzg_commit r pp_G1 pp_H f_coeffs r_coeffs = Inl AssertionError"
  by (auto simp: Kzg_commit_def ZkKzg_commit_def)

lemma asserted_setups_precondition:
  "degree \<le> 0 \<Longrightarrow> Kzg_setup r alpha degree = Inl AssertionError
     \<and> Kzg_protected_setup r degree alpha = Inl AssertionError
     \<and> CheatingKzg_setup r alpha degree = Inl AssertionError
     \<and> ZkKzg_setup r alpha beta degree = Inl AssertionError
     \<and> ZkKzg_protected_setup r degree alpha beta = Inl AssertionError"
  by (simp add: Kzg_setup_def Kzg_protected_setup_def CheatingKzg_setup_def
      ZkKzg_setup_def ZkKzg_protected_setup_def)

text \<open>
  The only failure of a scalar multiplication, and so of the loops of the setups, is
  the range check: for a degree of at least 1 no setup ends in an assertion failure.
\<close>

lemma G1_multiply_Inl: "G1_multiply r P s = Inl e \<Longrightarrow> e = InvalidScalar"
  by (cases P) (simp split: if_splits)

lemma G2_multiply_Inl: "G2_multiply r P s = Inl e \<Longrightarrow> e = InvalidScalar"
  by (cases P) (simp split: if_splits)

lemma ladder_loop_Inl: "ladder_loop r alpha is cur pp = Inl e \<Longrightarrow> e = InvalidScalar"
proof (induction "is" arbitrary: cur pp)
  case Nil
  then show ?case by simp
next
  case (Cons i "is")
  show ?case
  proof (cases "G1_multiply r G1_BASE cur")
    case (Inl e')
    with Cons.prems have "e = e'"
      by simp
    with Inl show ?thesis
      by (simp add: G1_multiply_Inl)
  next
    case (Inr point)
    with Cons.prems show ?thesis
      by (auto dest: Cons.IH)
  qed
qed

lemma field_ladder_loop_Inl:
  "field_ladder_loop r a is cur pp = Inl e \<Longrightarrow> e = InvalidScalar"
proof (induction "is" arbitrary: cur pp)
  case Nil
  then show ?case by simp
next
  case (Cons i "is")
  show ?case
  proof (cases "G1_multiply r G1_BASE cur")
    case (Inl e')
    with Cons.prems have "e = e'"
      by simp
    with Inl show ?thesis
      by (simp add: G1_multiply_Inl)
  next
    case (Inr point)
    with Cons.prems show ?thesis
      by (auto dest: Cons.IH)
  qed
qed

lemma zk_ladder_loop_Inl:
  "zk_ladder_loop r alpha H is cur pp_G1 pp_H = Inl e \<Longrightarrow> e = InvalidScalar"
proof (induction "is" arbitrary: cur pp_G1 pp_H)
  case Nil
  then show ?case by simp
next
  case (Cons i "is")
  show ?case
  proof (cases "G1_multiply r G1_BASE cur")
    case (Inl e')
    with Cons.prems have "e = e'"
      by simp
    with Inl show ?thesis
      by (simp add: G1_multiply_Inl)
  next
    case p: (Inr point)
    show ?thesis
    proof (cases "G1_multiply r H cur")
      case (Inl e')
      with Cons.prems p have "e = e'"
        by simp
      with Inl show ?thesis
        by (simp add: G1_multiply_Inl)
    next
      case (Inr point_H)
      with Cons.prems p show ?thesis
        by (auto dest: Cons.IH)
    qed
  qed
qed

lemma setups_no_assertion_failure:
  assumes "1 \<le> degree"
  shows "Kzg_setup r alpha degree \<noteq> Inl AssertionError"
    and "CheatingKzg_setup r alpha degree \<noteq> Inl AssertionError"
    and "ZkKzg_setup r alpha beta degree \<noteq> Inl AssertionError"
    and "PolynomialCommitmentScheme_setup r alpha degree \<noteq> Inl AssertionError"
proof -
  have d: "0 < degree"
    using assms by simp
  have k: "Kzg_protected_setup r degree alpha \<noteq> Inl AssertionError"
    using d by (auto simp: Kzg_protected_setup_def split: sum.splits
        dest: ladder_loop_Inl G2_multiply_Inl)
  show "Kzg_setup r alpha degree \<noteq> Inl AssertionError"
    using d k by (simp add: Kzg_setup_def)
  show "CheatingKzg_setup r alpha degree \<noteq> Inl AssertionError"
    using d k by (auto simp: CheatingKzg_setup_def split: sum.splits)
  show "ZkKzg_setup r alpha beta degree \<noteq> Inl AssertionError"
    using d by (auto simp: ZkKzg_setup_def ZkKzg_protected_setup_def split: sum.splits
        dest: zk_ladder_loop_Inl G1_multiply_Inl G2_multiply_Inl)
  show "PolynomialCommitmentScheme_setup r alpha degree \<noteq> Inl AssertionError"
    by (auto simp: PolynomialCommitmentScheme_setup_def split: sum.splits
        dest: field_ladder_loop_Inl G2_multiply_Inl)
qed

section \<open>The scheme when every call returns\<close>

text \<open>
  Whenever \<open>setup\<close>, \<open>commit\<close>, \<open>prove\<close> and \<open>verify\<close> all return, the ladder holds
  the powers of the secret, the commitments are the values of the polynomial and of its
  quotient at the secret, and \<open>verify\<close> answers whether the claimed value is the value
  of the polynomial at the point. Likewise the proof of the cheating prover is accepted
  whenever it is returned and \<open>verify\<close> returns.
\<close>

lemma ladder_loop_Inr:
  "ladder_loop r alpha is cur pp = Inr pp' \<Longrightarrow>
   pp' = pp @ map (\<lambda>j. PointG1 ((cur * alpha ^ j) mod r)) [0..<length is]"
proof (induction "is" arbitrary: cur pp)
  case Nil
  then show ?case by simp
next
  case (Cons i "is")
  from Cons.prems obtain point where
    m: "G1_multiply r G1_BASE cur = Inr point"
    and l: "ladder_loop r alpha is (Fr_mul r cur alpha) (pp @ [point]) = Inr pp'"
    by (auto split: sum.splits)
  have p: "point = PointG1 (cur mod r)"
    using m by (auto simp: G1_BASE_def split: if_splits)
  have e: "(Fr_mul r cur alpha * alpha ^ j) mod r = (cur * alpha ^ Suc j) mod r" for j
    unfolding Fr_mul_def by (simp add: mod_mult_left_eq mult.assoc)
  have "map (\<lambda>j. PointG1 ((cur * alpha ^ j) mod r)) [0..<Suc (length is)]
          = PointG1 (cur mod r) # map (\<lambda>j. PointG1 ((cur * alpha ^ Suc j) mod r)) [0..<length is]"
    by (simp add: map_upt_Suc del: upt_Suc)
  then show ?case
    using Cons.IH[OF l] p e by simp
qed

lemma Kzg_setup_Inr:
  assumes "Kzg_setup r alpha degree = Inr s"
  shows "0 < degree"
    and "Setup_pp s = map (\<lambda>i. PointG1 (alpha ^ i mod r)) [0..<nat (degree + 1)]"
    and "Setup_alpha_G2 s = PointG2 (alpha mod r)"
proof -
  show d: "0 < degree"
    using assms by (cases "0 < degree") (simp_all add: Kzg_setup_def)
  from assms d obtain pp aG2 where
    l: "ladder_loop r alpha [0..<nat (degree + 1)] 1 [] = Inr pp"
    and g: "G2_multiply r G2_BASE alpha = Inr aG2"
    and s: "s = \<lparr>Setup_pp = pp, Setup_alpha_G2 = aG2\<rparr>"
    by (auto simp: Kzg_setup_def Kzg_protected_setup_def split: sum.splits)
  have "aG2 = PointG2 (alpha mod r)"
    using g by (auto simp: G2_BASE_def split: if_splits)
  then show "Setup_alpha_G2 s = PointG2 (alpha mod r)"
    using s by simp
  show "Setup_pp s = map (\<lambda>i. PointG1 (alpha ^ i mod r)) [0..<nat (degree + 1)]"
    using ladder_loop_Inr[OF l] s by simp
qed

lemma sum_list_upt: "sum_list (map g [0..<n]) = (\<Sum>i<n. g i)"
  for g :: "nat \<Rightarrow> int"
  by (induction n) simp_all

lemma commit_loop_dlog:
  "commit_loop r pp f is com_f = Inr c \<Longrightarrow>
   dlog c mod r = (dlog com_f + sum_list (map (\<lambda>i. dlog (pp ! i) * f ! i) is)) mod r"
proof (induction "is" arbitrary: com_f)
  case Nil
  then show ?case by simp
next
  case (Cons i "is")
  from Cons.prems obtain t where
    m: "G1_multiply r (pp ! i) (f ! i) = Inr t"
    and l: "commit_loop r pp f is (G1_add r com_f t) = Inr c"
    by (auto split: sum.splits)
  obtain p where p: "pp ! i = PointG1 p"
    by (cases "pp ! i")
  obtain a where a: "com_f = PointG1 a"
    by (cases com_f)
  have t: "t = PointG1 ((p * f ! i) mod r)"
    using m p by (auto split: if_splits)
  let ?rest = "sum_list (map (\<lambda>i. dlog (pp ! i) * f ! i) is)"
  have "dlog c mod r = (dlog (G1_add r com_f t) + ?rest) mod r"
    by (rule Cons.IH[OF l])
  also have "\<dots> = ((a + (p * f ! i) mod r) mod r + ?rest) mod r"
    by (simp add: a t)
  also have "\<dots> = (a + p * f ! i + ?rest) mod r"
    by (simp add: mod_simps)
  finally show ?case
    by (simp add: a p add.assoc)
qed

lemma Kzg_commit_ladder_Inr:
  assumes "Kzg_commit r (map (\<lambda>i. PointG1 (alpha ^ i mod r)) [0..<n]) f = Inr c"
  shows "dlog c mod r = evalPolyAt r f alpha"
proof -
  let ?pp = "map (\<lambda>i. PointG1 (alpha ^ i mod r)) [0..<n]"
  have len: "length f = n"
    using assms by (cases "length ?pp = length f") (simp_all add: Kzg_commit_def)
  then have l: "commit_loop r ?pp f [0..<n] G1_ZERO = Inr c"
    using assms by (simp add: Kzg_commit_def)
  have "dlog c mod r = (\<Sum>i<n. dlog (?pp ! i) * f ! i) mod r"
    using commit_loop_dlog[OF l] by (simp add: G1_ZERO_def sum_list_upt)
  also have "(\<Sum>i<n. dlog (?pp ! i) * f ! i) = (\<Sum>i<n. (alpha ^ i mod r) * f ! i)"
    by (rule sum.cong) simp_all
  also have "\<dots> mod r = (\<Sum>i<n. ((alpha ^ i mod r) * f ! i) mod r) mod r"
    by (simp only: mod_sum_eq)
  also have "\<dots> = (\<Sum>i<n. (alpha ^ i * f ! i) mod r) mod r"
    by (simp only: mod_mult_left_eq)
  also have "\<dots> = (\<Sum>i<n. alpha ^ i * f ! i) mod r"
    by (simp only: mod_sum_eq)
  also have "(\<Sum>i<n. alpha ^ i * f ! i) = (\<Sum>i<length f. f ! i * alpha ^ i)"
    unfolding len by (rule sum.cong) (simp_all add: mult.commute)
  finally show ?thesis
    by (simp only: evalPolyAt_sum)
qed

lemma Kzg_prove_ladder_Inr:
  assumes "Kzg_prove r (map (\<lambda>i. PointG1 (alpha ^ i mod r)) [0..<n]) f u = Inr c"
  shows "dlog c mod r = evalPolyAt r (quotient_of r f u) alpha"
proof -
  let ?pp = "map (\<lambda>i. PointG1 (alpha ^ i mod r)) [0..<n]"
  let ?q = "quotient_of r f u"
  have ne: "\<not> length f < 1"
    using assms by (cases "length f < 1") (simp_all add: Kzg_prove_def)
  then have c: "Kzg_commit r (take (length ?q) ?pp) ?q = Inr c"
    using assms by (simp add: Kzg_prove_def Let_def synthetic_division_quotient)
  have "length ?q \<le> n"
  proof (rule ccontr)
    assume "\<not> length ?q \<le> n"
    then have "length (take (length ?q) ?pp) \<noteq> length ?q"
      by simp
    then have "Kzg_commit r (take (length ?q) ?pp) ?q = Inl AssertionError"
      unfolding Kzg_commit_def by (rule if_P)
    with c show False
      by simp
  qed
  then have "take (length ?q) ?pp = map (\<lambda>i. PointG1 (alpha ^ i mod r)) [0..<length ?q]"
    by (simp add: take_map min_def)
  then show ?thesis
    using c Kzg_commit_ladder_Inr[of r alpha "length ?q" ?q c] by simp
qed

lemma Kzg_verify_Inr:
  assumes "Kzg_verify r (PointG1 F) (PointG1 Q) u v (PointG2 A) = Inr b"
  shows "b \<longleftrightarrow> (F - v) mod r = (Q * (A - u)) mod r"
proof -
  from assms have u: "1 \<le> u \<and> u < r"
    by (cases "1 \<le> u \<and> u < r") (simp_all add: Kzg_verify_def G2_BASE_def)
  then have mu: "G2_multiply r G2_BASE u = Inr (PointG2 u)"
    by (simp add: G2_multiply_BASE)
  from assms mu obtain p2 where
    p2: "pairing r (PointG1 Q) (G2_subtract r (PointG2 A) (PointG2 u)) = Inr p2"
    and rest: "(case G1_multiply r G1_BASE v of
                  Inl e \<Rightarrow> Inl e
                | Inr v_G1 \<Rightarrow>
                    (case pairing r (G1_subtract r (PointG1 F) v_G1) G2_BASE of
                       Inl e \<Rightarrow> Inl e
                     | Inr pairing1 \<Rightarrow> Inr (Fp12_eql pairing1 p2))) = Inr b"
    by (auto simp: Kzg_verify_def split: sum.splits)
  from rest have v: "1 \<le> v \<and> v < r"
    by (cases "1 \<le> v \<and> v < r") (simp_all add: G1_BASE_def)
  then have mv: "G1_multiply r G1_BASE v = Inr (PointG1 v)"
    by (simp add: G1_multiply_BASE)
  from rest mv obtain p1 where
    p1: "pairing r (G1_subtract r (PointG1 F) (PointG1 v)) G2_BASE = Inr p1"
    and b: "b = Fp12_eql p1 p2"
    by (auto split: sum.splits)
  have e2: "p2 = Fp12 ((Q * ((A - u) mod r)) mod r)"
    using p2 by (auto split: if_splits)
  have e1: "p1 = Fp12 (((F - v) mod r * 1) mod r)"
    using p1 by (auto simp: G2_BASE_def split: if_splits)
  show ?thesis
    unfolding b e1 e2 Fp12_eql_def by (simp add: mod_simps)
qed

lemma honest_pipeline_when_it_returns:
  assumes "Kzg_setup r alpha degree = Inr s"
    and "Kzg_commit r (Setup_pp s) f = Inr com_f"
    and "Kzg_prove r (Setup_pp s) f u = Inr com_q"
    and "Kzg_verify r com_f com_q u v (Setup_alpha_G2 s) = Inr b"
  shows "b \<longleftrightarrow> v mod r = evalPolyAt r f u"
proof -
  note s = Kzg_setup_Inr[OF assms(1)]
  obtain F where F: "com_f = PointG1 F"
    by (cases com_f)
  obtain Q where Q: "com_q = PointG1 Q"
    by (cases com_q)
  let ?F = "evalPolyAt r f alpha"
  let ?Q = "evalPolyAt r (quotient_of r f u) alpha"
  let ?E = "evalPolyAt r f u"
  have Fm: "F mod r = ?F"
    using Kzg_commit_ladder_Inr[of r alpha "nat (degree + 1)" f com_f] assms(2) s(2) F by simp
  have Qm: "Q mod r = ?Q"
    using Kzg_prove_ladder_Inr[of r alpha "nat (degree + 1)" f u com_q] assms(3) s(2) Q by simp
  have "b \<longleftrightarrow> (F - v) mod r = (Q * (alpha mod r - u)) mod r"
    using assms(4) unfolding F Q s(3) by (rule Kzg_verify_Inr)
  also have "(F - v) mod r = (?F - v) mod r"
    unfolding Fm[symmetric] by (simp only: mod_diff_left_eq)
  also have "(Q * (alpha mod r - u)) mod r = (?Q * (alpha - u)) mod r"
    unfolding Qm[symmetric] by (metis mod_diff_left_eq mod_mult_left_eq mod_mult_right_eq)
  also have "\<dots> = (?F - ?E) mod r"
    by (rule quotient_of_identity)
  also have "(?F - v) mod r = (?F - ?E) mod r \<longleftrightarrow> v mod r = ?E mod r"
    by (simp add: mod_eq_dvd_iff) (metis dvd_diff_commute)
  finally show ?thesis
    by (simp add: evalPolyAt_mod)
qed

lemma invert_Inr:
  assumes "invert a r = Inr i" and r: "1 < r"
  shows "(i * a) mod r = 1"
proof -
  obtain g y where gy: "invert_loop (a mod r) r 0 1 = (g, y)"
    by (cases "invert_loop (a mod r) r 0 1")
  from assms(1) gy have g: "g = 1" and i: "i = y mod r"
    by (auto simp: invert_def split: if_splits)
  have "g = gcd (a mod r) r \<and> (y * a) mod r = g mod r"
    using r by (intro invert_loop_correct[OF _ _ _ _ gy]) simp_all
  then have "(y * a) mod r = 1"
    using g r by simp
  then show "(i * a) mod r = 1"
    unfolding i by (simp add: mod_mult_left_eq)
qed

lemma CheatingKzg_setup_Inr:
  assumes "CheatingKzg_setup r alpha degree = Inr s"
  shows "\<exists>s'. Kzg_setup r alpha degree = Inr s' \<and> Setup_pp s = Setup_pp s'
           \<and> Setup_alpha_G2 s = Setup_alpha_G2 s' \<and> Setup_alpha s = alpha"
proof -
  have d: "0 < degree"
    using assms by (cases "0 < degree") (simp_all add: CheatingKzg_setup_def)
  then show ?thesis
    using assms by (auto simp: CheatingKzg_setup_def Kzg_setup_def split: sum.splits)
qed

lemma forgery_when_it_returns:
  assumes "CheatingKzg_setup r alpha degree = Inr s"
    and "Kzg_commit r (Setup_pp s) f = Inr com_f"
    and "CheatingKzg_prove r (Setup_pp s) f u vFake (Setup_alpha s) = Inr com_q"
    and "Kzg_verify r com_f com_q u vFake (Setup_alpha_G2 s) = Inr b"
  shows "b"
proof -
  from CheatingKzg_setup_Inr[OF assms(1)] obtain s' where
    s': "Kzg_setup r alpha degree = Inr s'" and pp: "Setup_pp s = Setup_pp s'"
    and k: "Setup_alpha_G2 s = Setup_alpha_G2 s'" and a: "Setup_alpha s = alpha"
    by blast
  note s = Kzg_setup_Inr[OF s']
  obtain F where F: "com_f = PointG1 F"
    by (cases com_f)
  let ?F = "evalPolyAt r f alpha"
  let ?n = "Fr_sub r ?F vFake"
  let ?d = "Fr_sub r alpha u"
  have Fm: "F mod r = ?F"
    using Kzg_commit_ladder_Inr[of r alpha "nat (degree + 1)" f com_f] assms(2) s(2) pp F by simp
  from assms(3) obtain qFake where
    q: "Fr_div r ?n ?d = Inr qFake" and m: "G1_multiply r G1_BASE qFake = Inr com_q"
    by (auto simp: CheatingKzg_prove_def Let_def a eval_at_alpha_value split: sum.splits)
  from q obtain i where i: "invert ?d r = Inr i" and qF: "qFake = (?n * i) mod r"
    by (auto simp: Fr_div_def split: sum.splits)
  have Q: "com_q = PointG1 (qFake mod r)"
    using m by (auto simp: G1_BASE_def split: if_splits)
  have r: "1 < r"
    using m by (auto simp: G1_BASE_def split: if_splits)
  have one: "(i * ?d) mod r = 1"
    by (rule invert_Inr[OF i r])
  have "b \<longleftrightarrow> (F - vFake) mod r = (qFake mod r * (alpha mod r - u)) mod r"
    using assms(4) unfolding F Q k s(3) by (rule Kzg_verify_Inr)
  also have "(F - vFake) mod r = ?n"
    unfolding Fm[symmetric] Fr_sub_def by (simp only: mod_diff_left_eq)
  also have "(qFake mod r * (alpha mod r - u)) mod r = (qFake * ?d) mod r"
    unfolding Fr_sub_def by (metis mod_diff_left_eq mod_mult_left_eq mod_mult_right_eq)
  also have "\<dots> = (?n * (i * ?d)) mod r"
    unfolding qF by (simp only: mod_mult_left_eq mult.assoc)
  also have "\<dots> = (?n * ((i * ?d) mod r)) mod r"
    by (simp only: mod_mult_right_eq)
  also have "\<dots> = ?n"
    unfolding one by (simp add: Fr_sub_def)
  finally show ?thesis
    by simp
qed

lemma honest_pipeline_example:
  "Kzg_setup bls12_381_Fr_ORDER 77 4 =
     Inr \<lparr>Setup_pp = [PointG1 1, PointG1 77, PointG1 5929, PointG1 456533, PointG1 35153041],
          Setup_alpha_G2 = PointG2 77\<rparr>"
  "Kzg_commit bls12_381_Fr_ORDER
     [PointG1 1, PointG1 77, PointG1 5929, PointG1 456533, PointG1 35153041] [5, 4, 3, 2, 1]
     = Inr (PointG1 36084207)"
  "Kzg_prove bls12_381_Fr_ORDER
     [PointG1 1, PointG1 77, PointG1 5929, PointG1 456533, PointG1 35153041] [5, 4, 3, 2, 1] 5
     = Inr (PointG1 501156)"
  "evalPolyAt bls12_381_Fr_ORDER [5, 4, 3, 2, 1] 5 = 975"
  "Kzg_verify bls12_381_Fr_ORDER (PointG1 36084207) (PointG1 501156) 5 975 (PointG2 77) = Inr True"
  "Kzg_verify bls12_381_Fr_ORDER (PointG1 36084207) (PointG1 501156) 5 976 (PointG2 77) = Inr False"
  by code_simp+

section \<open>Claims\<close>

text \<open>
  C4. For a coefficient vector of length n at least 1 and any point \<open>u\<close>, the quotient
  that the loop of \<open>prove\<close> computes has length n - 1; its product with \<open>x - u\<close>,
  computed by \<open>mulPoly\<close>, has the coefficients of \<open>f(x) - f(u)\<close>, computed by
  \<open>addPoly\<close>, and so the same value in the scalar field at every \<open>x\<close>; and one more
  carry step, \<open>f_coeffs[0] + u * carry\<close>, is \<open>f(u)\<close>.
\<close>

theorem synthetic_division_correct:
  assumes "1 \<le> length f_coeffs"
  shows "length (snd (synthetic_division r f_coeffs u)) = length f_coeffs - 1
       \<and> mulPoly r (snd (synthetic_division r f_coeffs u)) [Fr_neg r u, 1]
           = Inr (addPoly r f_coeffs [Fr_neg r (evalPolyAt r f_coeffs u)])
       \<and> (\<forall>x. Fr_mul r (evalPolyAt r (snd (synthetic_division r f_coeffs u)) x) (Fr_sub r x u)
                = Fr_sub r (evalPolyAt r f_coeffs x) (evalPolyAt r f_coeffs u))
       \<and> Fr_add r (f_coeffs ! 0) (Fr_mul r u (fst (synthetic_division r f_coeffs u)))
           = evalPolyAt r f_coeffs u"
proof (intro conjI allI)
  show "length (snd (synthetic_division r f_coeffs u)) = length f_coeffs - 1"
    by (simp add: synthetic_division_quotient length_quotient_of)
next
  have "f_coeffs \<noteq> []"
    using assms by auto
  then show "mulPoly r (snd (synthetic_division r f_coeffs u)) [Fr_neg r u, 1]
           = Inr (addPoly r f_coeffs [Fr_neg r (evalPolyAt r f_coeffs u)])"
    by (rule division_coefficients)
next
  fix x
  have "(evalPolyAt r (quotient_of r f_coeffs u) x * ((x - u) mod r)) mod r =
        (evalPolyAt r f_coeffs x - evalPolyAt r f_coeffs u) mod r"
    using quotient_of_identity[of r f_coeffs u x] by (simp add: mod_simps)
  then show "Fr_mul r (evalPolyAt r (snd (synthetic_division r f_coeffs u)) x) (Fr_sub r x u)
               = Fr_sub r (evalPolyAt r f_coeffs x) (evalPolyAt r f_coeffs u)"
    by (simp add: Fr_mul_def Fr_sub_def synthetic_division_quotient)
next
  from assms obtain c cs where f: "f_coeffs = c # cs"
    by (cases f_coeffs) auto
  show "Fr_add r (f_coeffs ! 0) (Fr_mul r u (fst (synthetic_division r f_coeffs u)))
          = evalPolyAt r f_coeffs u"
    by (simp add: synthetic_division_carry f evalPolyAt_Cons Fr_add_def Fr_mul_def
        mod_simps algebra_simps)
qed

theorem synthetic_division_correct_witness:
  "1 \<le> length [5, 4, 3, 2, 1 :: int]
   \<and> synthetic_division 1009 [5, 4, 3, 2, 1] 5 = (194, [194, 38, 7, 1])
   \<and> evalPolyAt 1009 [5, 4, 3, 2, 1] 5 = 975
   \<and> length (snd (synthetic_division 1009 [5, 4, 3, 2, 1] 5)) = length [5, 4, 3, 2, 1 :: int] - 1
   \<and> mulPoly 1009 (snd (synthetic_division 1009 [5, 4, 3, 2, 1] 5)) [Fr_neg 1009 5, 1]
       = Inr (addPoly 1009 [5, 4, 3, 2, 1] [Fr_neg 1009 (evalPolyAt 1009 [5, 4, 3, 2, 1] 5)])
   \<and> (\<forall>x. Fr_mul 1009 (evalPolyAt 1009 (snd (synthetic_division 1009 [5, 4, 3, 2, 1] 5)) x)
                (Fr_sub 1009 x 5)
            = Fr_sub 1009 (evalPolyAt 1009 [5, 4, 3, 2, 1] x) (evalPolyAt 1009 [5, 4, 3, 2, 1] 5))
   \<and> Fr_add 1009 ([5, 4, 3, 2, 1] ! 0)
        (Fr_mul 1009 5 (fst (synthetic_division 1009 [5, 4, 3, 2, 1] 5)))
       = evalPolyAt 1009 [5, 4, 3, 2, 1] 5"
proof -
  have h: "1 \<le> length [5, 4, 3, 2, 1 :: int]"
    by simp
  have e: "synthetic_division 1009 [5, 4, 3, 2, 1] 5 = (194, [194, 38, 7, 1])"
    by code_simp
  have v: "evalPolyAt 1009 [5, 4, 3, 2, 1] 5 = 975"
    by code_simp
  from synthetic_division_correct[OF h, of 1009 5] h e v show ?thesis
    by blast
qed

text \<open>
  C1 (completeness) does not hold of the program. \<open>Kzg.commit\<close> hands every
  coefficient to \<open>Point.multiply\<close> as it is, and 0 is outside the range of scalars
  which the library accepts. For \<open>x^2 + 1\<close>, written \<open>[1, 0, 1]\<close>, \<open>commit\<close> throws: at
  the order of BLS12-381 over the ladder that \<open>setup\<close> returns for the secret 77 and
  the degree 2, and for every order and every ladder of three points. \<open>Kzg.verify\<close>
  throws in \<open>G2.multiply(u)\<close> for the point \<open>u = 0\<close>, whatever its other arguments.
  No value is returned, so \<open>verify\<close> does not return true.
\<close>

theorem Kzg_commit_zero_coefficient:
  "Kzg_setup bls12_381_Fr_ORDER 77 2 =
     Inr \<lparr>Setup_pp = [PointG1 1, PointG1 77, PointG1 5929], Setup_alpha_G2 = PointG2 77\<rparr>
   \<and> Kzg_commit bls12_381_Fr_ORDER [PointG1 1, PointG1 77, PointG1 5929] [1, 0, 1]
       = Inl InvalidScalar
   \<and> Kzg_commit r [P0, P1, P2] [1, 0, 1] = Inl InvalidScalar
   \<and> Kzg_verify r com_f com_q 0 v alpha_G2 = Inl InvalidScalar"
proof (intro conjI)
  show "Kzg_setup bls12_381_Fr_ORDER 77 2 =
     Inr \<lparr>Setup_pp = [PointG1 1, PointG1 77, PointG1 5929], Setup_alpha_G2 = PointG2 77\<rparr>"
    by code_simp
  show "Kzg_commit bls12_381_Fr_ORDER [PointG1 1, PointG1 77, PointG1 5929] [1, 0, 1]
       = Inl InvalidScalar"
    by code_simp
  show "Kzg_commit r [P0, P1, P2] [1, 0, 1] = Inl InvalidScalar"
    by (cases P0; cases P1) (simp add: Kzg_commit_def)
  show "Kzg_verify r com_f com_q 0 v alpha_G2 = Inl InvalidScalar"
    by (simp add: Kzg_verify_def G2_BASE_def)
qed

text \<open>
  C2 (soundness of the honest path) does not hold of the program. For the claimed
  value 0, which differs from \<open>f(5) = 975\<close> for \<open>f = [5, 4, 3, 2, 1]\<close>, \<open>Kzg.verify\<close>
  does not return false: with the honest commitment and proof, at the order of
  BLS12-381, it throws in \<open>G1.multiply(v)\<close>; and for every order, commitment, proof,
  point and verification key the call with \<open>v = 0\<close> ends in a failure of the
  library, in one of the two multiplications or in the first pairing.
\<close>

theorem Kzg_verify_zero_value:
  "Kzg_commit bls12_381_Fr_ORDER
     [PointG1 1, PointG1 77, PointG1 5929, PointG1 456533, PointG1 35153041] [5, 4, 3, 2, 1]
     = Inr (PointG1 36084207)
   \<and> Kzg_prove bls12_381_Fr_ORDER
     [PointG1 1, PointG1 77, PointG1 5929, PointG1 456533, PointG1 35153041] [5, 4, 3, 2, 1] 5
     = Inr (PointG1 501156)
   \<and> evalPolyAt bls12_381_Fr_ORDER [5, 4, 3, 2, 1] 5 = 975
   \<and> Kzg_verify bls12_381_Fr_ORDER (PointG1 36084207) (PointG1 501156) 5 0 (PointG2 77)
       = Inl InvalidScalar
   \<and> (Kzg_verify r com_f com_q u 0 alpha_G2 = Inl InvalidScalar
        \<or> Kzg_verify r com_f com_q u 0 alpha_G2 = Inl ZeroPairing)"
proof (intro conjI)
  show "Kzg_verify r com_f com_q u 0 alpha_G2 = Inl InvalidScalar
        \<or> Kzg_verify r com_f com_q u 0 alpha_G2 = Inl ZeroPairing"
    by (cases com_q; cases alpha_G2)
      (simp add: Kzg_verify_def G1_BASE_def G2_BASE_def)
qed code_simp+

text \<open>
  C3 (adversarial forgery) does not hold of the program for every fake value. When
  the fake value is the value of the polynomial at the secret, the quotient
  \<open>qFake\<close> is 0 and \<open>CheatingKzg.prove\<close> throws in \<open>G1.multiply(qFake)\<close>, or in the
  inversion when the secret is congruent to the point; no proof is returned. At the
  order of BLS12-381, for \<open>f = [5, 4, 3, 2, 1]\<close>, the secret 77 and the point 5, the fake
  value \<open>f(77) = 36084207\<close> differs from \<open>f(5) = 975\<close>, and the call throws.
\<close>

theorem CheatingKzg_prove_zero_quotient:
  "evalPolyAt bls12_381_Fr_ORDER [5, 4, 3, 2, 1] 77 = 36084207
   \<and> evalPolyAt bls12_381_Fr_ORDER [5, 4, 3, 2, 1] 5 = 975
   \<and> CheatingKzg_prove bls12_381_Fr_ORDER
       [PointG1 1, PointG1 77, PointG1 5929, PointG1 456533, PointG1 35153041]
       [5, 4, 3, 2, 1] 5 36084207 77 = Inl InvalidScalar
   \<and> (CheatingKzg_prove r pp f_coeffs u (evalPolyAt r f_coeffs alpha) alpha = Inl InvertError
        \<or> CheatingKzg_prove r pp f_coeffs u (evalPolyAt r f_coeffs alpha) alpha
            = Inl InvalidScalar)"
proof (intro conjI)
  let ?d = "Fr_sub r alpha u"
  have n: "Fr_sub r (fst (eval_at_alpha r f_coeffs alpha)) (evalPolyAt r f_coeffs alpha) = 0"
    by (simp add: eval_at_alpha_value Fr_sub_def)
  have p: "CheatingKzg_prove r pp f_coeffs u (evalPolyAt r f_coeffs alpha) alpha
             = (case Fr_div r 0 ?d of Inl e \<Rightarrow> Inl e | Inr qFake \<Rightarrow> G1_multiply r G1_BASE qFake)"
    by (simp add: CheatingKzg_prove_def Let_def n)
  show "CheatingKzg_prove r pp f_coeffs u (evalPolyAt r f_coeffs alpha) alpha = Inl InvertError
        \<or> CheatingKzg_prove r pp f_coeffs u (evalPolyAt r f_coeffs alpha) alpha
            = Inl InvalidScalar"
  proof (cases "invert ?d r")
    case (Inl e)
    obtain g y where gy: "invert_loop (?d mod r) r 0 1 = (g, y)"
      by (cases "invert_loop (?d mod r) r 0 1")
    from Inl gy have "e = InvertError"
      by (auto simp: invert_def split: if_splits)
    with Inl show ?thesis
      by (simp add: p Fr_div_def)
  next
    case (Inr i)
    then show ?thesis
      by (simp add: p Fr_div_def G1_BASE_def)
  qed
next
  have e: "evalPolyAt bls12_381_Fr_ORDER [5, 4, 3, 2, 1] 77 = 36084207"
    by code_simp
  have "\<exists>x. invert_loop 72 bls12_381_Fr_ORDER 0 1 = (1, x)"
    unfolding bls12_381_Fr_ORDER_def by (simp add: invert_loop.simps)
  then obtain x where "invert_loop 72 bls12_381_Fr_ORDER 0 1 = (1, x)"
    by blast
  moreover have "(72 :: int) mod bls12_381_Fr_ORDER = 72"
    by (simp add: bls12_381_Fr_ORDER_def)
  ultimately have i: "invert 72 bls12_381_Fr_ORDER = Inr (x mod bls12_381_Fr_ORDER)"
    by (simp add: invert_def)
  have d: "Fr_sub bls12_381_Fr_ORDER 77 5 = 72"
    by (simp add: Fr_sub_def bls12_381_Fr_ORDER_def)
  have n: "Fr_sub bls12_381_Fr_ORDER 36084207 36084207 = 0"
    by (simp add: Fr_sub_def)
  show "CheatingKzg_prove bls12_381_Fr_ORDER
       [PointG1 1, PointG1 77, PointG1 5929, PointG1 456533, PointG1 35153041]
       [5, 4, 3, 2, 1] 5 36084207 77 = Inl InvalidScalar"
    by (simp add: CheatingKzg_prove_def Let_def eval_at_alpha_value e d n Fr_div_def i
        G1_BASE_def)
qed code_simp+

text \<open>
  C5 (constant polynomial). For a coefficient vector \<open>[c]\<close> the loop of \<open>prove\<close>
  does not run, the quotient is empty and \<open>prove\<close> returns the identity of G1, as
  claimed. \<open>verify\<close>, however, never returns true on that proof: the first pairing
  receives the identity of G1, so the call ends in a failure of the library, for every
  order, commitment, point, value and verification key. At the order of BLS12-381, for
  \<open>[7]\<close> over the ladder of one point, the point 5 and the value 7, the pairing throws.
\<close>

theorem degenerate_constant_throws:
  "snd (synthetic_division r [c] u) = []
   \<and> Kzg_prove r pp [c] u = Inr G1_ZERO
   \<and> (Kzg_verify r com_f G1_ZERO u c alpha_G2 = Inl InvalidScalar
        \<or> Kzg_verify r com_f G1_ZERO u c alpha_G2 = Inl ZeroPairing)
   \<and> Kzg_commit bls12_381_Fr_ORDER [G1_BASE] [7] = Inr (PointG1 7)
   \<and> Kzg_prove bls12_381_Fr_ORDER [G1_BASE] [7] 5 = Inr G1_ZERO
   \<and> Kzg_verify bls12_381_Fr_ORDER (PointG1 7) G1_ZERO 5 7 (PointG2 77) = Inl ZeroPairing"
proof (intro conjI)
  show q: "snd (synthetic_division r [c] u) = []" for r c u
    by (simp add: synthetic_division_def)
  show "Kzg_prove r pp [c] u = Inr G1_ZERO"
    by (simp add: Kzg_prove_def q Kzg_commit_def)
  show "Kzg_prove bls12_381_Fr_ORDER [G1_BASE] [7] 5 = Inr G1_ZERO"
    by (simp add: Kzg_prove_def q Kzg_commit_def)
  show "Kzg_verify r com_f G1_ZERO u c alpha_G2 = Inl InvalidScalar
        \<or> Kzg_verify r com_f G1_ZERO u c alpha_G2 = Inl ZeroPairing"
    by (cases alpha_G2) (simp add: Kzg_verify_def G1_ZERO_def G2_BASE_def)
  show "Kzg_commit bls12_381_Fr_ORDER [G1_BASE] [7] = Inr (PointG1 7)"
    by code_simp
  show "Kzg_verify bls12_381_Fr_ORDER (PointG1 7) G1_ZERO 5 7 (PointG2 77) = Inl ZeroPairing"
    by code_simp
qed

text \<open>
  C8 (structure of the public parameters), as stated, fails for a secret that is 0:
  at the order of BLS12-381 and the degree 1, \<open>Kzg.setup\<close> throws in the second round
  of its loop for \<open>alpha = 0\<close>, and \<open>ZkKzg.setup\<close> throws for \<open>alpha = 0\<close> and for
  \<open>beta = 0\<close>; no public parameters are returned.
\<close>

theorem setup_zero_secret:
  "Kzg_setup bls12_381_Fr_ORDER 0 1 = Inl InvalidScalar
   \<and> ZkKzg_setup bls12_381_Fr_ORDER 0 3 1 = Inl InvalidScalar
   \<and> ZkKzg_setup bls12_381_Fr_ORDER 77 0 1 = Inl InvalidScalar"
  by (intro conjI) code_simp+

text \<open>
  C8, amended. For a prime order \<open>r\<close>, a degree \<open>d\<close> of at least 1 and secrets
  \<open>alpha\<close> and \<open>beta\<close> in \<open>1 .. r - 1\<close>, \<open>setup\<close> returns a ladder of length
  \<open>d + 1\<close> whose entry \<open>i\<close> is \<open>alpha ^ i\<close> times the generator of G1, the first
  being the generator itself, and a verification key that is \<open>alpha\<close> times the
  generator of G2; in the hiding variant the second ladder has \<open>beta * alpha ^ i\<close>
  times the generator of G1 at \<open>i\<close>, for the same \<open>alpha\<close>. The multiple of a generator
  by a power is the multiplication by the reduced power, the scalar that the library
  accepts.
\<close>

theorem public_parameter_structure:
  assumes "prime_order r" and "1 \<le> degree"
    and "1 \<le> alpha" and "alpha < r" and "1 \<le> beta" and "beta < r"
  shows "\<exists>s z. Kzg_setup r alpha degree = Inr s
           \<and> length (Setup_pp s) = nat degree + 1
           \<and> (\<forall>i. i \<le> nat degree \<longrightarrow>
                  G1_multiply r G1_BASE (alpha ^ i mod r) = Inr (Setup_pp s ! i))
           \<and> Setup_pp s ! 0 = G1_BASE
           \<and> G2_multiply r G2_BASE alpha = Inr (Setup_alpha_G2 s)
           \<and> ZkKzg_setup r alpha beta degree = Inr z
           \<and> length (Zk_pp_G1 z) = nat degree + 1
           \<and> length (Zk_pp_H z) = nat degree + 1
           \<and> (\<forall>i. i \<le> nat degree \<longrightarrow>
                  G1_multiply r G1_BASE (alpha ^ i mod r) = Inr (Zk_pp_G1 z ! i)
                \<and> G1_multiply r G1_BASE ((beta * alpha ^ i) mod r) = Inr (Zk_pp_H z ! i))
           \<and> G2_multiply r G2_BASE alpha = Inr (Zk_alpha_G2 z)"
proof -
  have d: "0 < degree" and n: "nat (degree + 1) = nat degree + 1"
    using assms(2) by simp_all
  have r: "1 < r"
    using assms(1) by (simp add: prime_order_def)
  have one: "(1 :: int) mod r = 1"
    using r by simp
  have na: "\<not> r dvd alpha"
    by (rule in_range_not_dvd[OF assms(3,4)])
  have nb: "\<not> r dvd beta"
    by (rule in_range_not_dvd[OF assms(5,6)])
  have nth: "i \<le> nat degree \<Longrightarrow> [0..<nat degree + 1] ! i = i" for i
    using nth_upt[of 0 i "nat degree + 1"] by simp
  have g: "G1_multiply r G1_BASE (alpha ^ i mod r) = Inr (PointG1 (alpha ^ i mod r))" for i
    by (rule G1_multiply_BASE) (rule mod_in_range[OF assms(1) power_not_dvd[OF assms(1) na]])+
  have nh: "\<not> r dvd beta * alpha ^ i" for i
    using prime_order_dvd_mult[OF assms(1), of beta "alpha ^ i"] nb
      power_not_dvd[OF assms(1) na, of i] by auto
  have h: "G1_multiply r G1_BASE ((beta * alpha ^ i) mod r)
             = Inr (PointG1 ((beta * alpha ^ i) mod r))" for i
    by (rule G1_multiply_BASE) (rule mod_in_range[OF assms(1) nh])+
  show ?thesis
    unfolding Kzg_setup_value[OF assms(1,3,4) d] ZkKzg_setup_value[OF assms(1,3,4,5,6) d] n
    using one g h G2_multiply_BASE[OF assms(3,4)]
    by (simp add: G1_BASE_def nth del: upt_Suc)
qed

theorem public_parameter_structure_witness:
  "prime_order 1009 \<and> (1 :: int) \<le> 2 \<and> (1 :: int) \<le> 77 \<and> (77 :: int) < 1009
   \<and> (1 :: int) \<le> 3 \<and> (3 :: int) < 1009
   \<and> Kzg_setup 1009 77 2 =
       Inr \<lparr>Setup_pp = [PointG1 1, PointG1 77, PointG1 884], Setup_alpha_G2 = PointG2 77\<rparr>
   \<and> ZkKzg_setup 1009 77 3 2 =
       Inr \<lparr>Zk_pp_G1 = [PointG1 1, PointG1 77, PointG1 884],
            Zk_pp_H = [PointG1 3, PointG1 231, PointG1 634],
            Zk_alpha_G2 = PointG2 77, Zk_H = PointG1 3\<rparr>
   \<and> (\<exists>s z. Kzg_setup 1009 77 2 = Inr s
           \<and> length (Setup_pp s) = nat 2 + 1
           \<and> (\<forall>i. i \<le> nat 2 \<longrightarrow>
                  G1_multiply 1009 G1_BASE (77 ^ i mod 1009) = Inr (Setup_pp s ! i))
           \<and> Setup_pp s ! 0 = G1_BASE
           \<and> G2_multiply 1009 G2_BASE 77 = Inr (Setup_alpha_G2 s)
           \<and> ZkKzg_setup 1009 77 3 2 = Inr z
           \<and> length (Zk_pp_G1 z) = nat 2 + 1
           \<and> length (Zk_pp_H z) = nat 2 + 1
           \<and> (\<forall>i. i \<le> nat 2 \<longrightarrow>
                  G1_multiply 1009 G1_BASE (77 ^ i mod 1009) = Inr (Zk_pp_G1 z ! i)
                \<and> G1_multiply 1009 G1_BASE ((3 * 77 ^ i) mod 1009) = Inr (Zk_pp_H z ! i))
           \<and> G2_multiply 1009 G2_BASE 77 = Inr (Zk_alpha_G2 z))"
proof -
  have h1: "prime_order 1009"
    by code_simp
  have h2: "(1 :: int) \<le> 2" and h3: "(1 :: int) \<le> 77" and h4: "(77 :: int) < 1009"
    and h5: "(1 :: int) \<le> 3" and h6: "(3 :: int) < 1009"
    by simp_all
  have e1: "Kzg_setup 1009 77 2 =
       Inr \<lparr>Setup_pp = [PointG1 1, PointG1 77, PointG1 884], Setup_alpha_G2 = PointG2 77\<rparr>"
    by code_simp
  have e2: "ZkKzg_setup 1009 77 3 2 =
       Inr \<lparr>Zk_pp_G1 = [PointG1 1, PointG1 77, PointG1 884],
            Zk_pp_H = [PointG1 3, PointG1 231, PointG1 634],
            Zk_alpha_G2 = PointG2 77, Zk_H = PointG1 3\<rparr>"
    by code_simp
  from public_parameter_structure[OF h1 h2 h3 h4 h5 h6] h1 h2 h3 h4 h5 h6 e1 e2 show ?thesis
    by blast
qed

text \<open>
  C6 (setup precondition). The claim holds for \<open>Kzg.setup\<close>, \<open>CheatingKzg.setup\<close> and
  \<open>ZkKzg.setup\<close>, which assert \<open>degree > 0\<close>; \<open>PolynomialCommitmentScheme.setup\<close>
  has no such assertion: for the degree 0 its loop runs once, for a negative degree not
  at all, and what follows is \<open>G2.multiply(a)\<close>. For a secret that the library accepts
  it returns public parameters, a ladder of one point and an empty ladder, as at the
  order of BLS12-381 for the secret 77.
\<close>

theorem PolynomialCommitmentScheme_setup_degree_zero:
  "PolynomialCommitmentScheme_setup r a 0 =
     (case G1_multiply r G1_BASE 1 of
        Inl e \<Rightarrow> Inl e
      | Inr point \<Rightarrow>
          (case G2_multiply r G2_BASE a of
             Inl e \<Rightarrow> Inl e
           | Inr alpha_G2 \<Rightarrow> Inr \<lparr>Setup_pp = [point], Setup_alpha_G2 = alpha_G2\<rparr>))
   \<and> PolynomialCommitmentScheme_setup r a (- 1) =
     (case G2_multiply r G2_BASE a of
        Inl e \<Rightarrow> Inl e
      | Inr alpha_G2 \<Rightarrow> Inr \<lparr>Setup_pp = [], Setup_alpha_G2 = alpha_G2\<rparr>)
   \<and> PolynomialCommitmentScheme_setup bls12_381_Fr_ORDER 77 0 =
       Inr \<lparr>Setup_pp = [G1_BASE], Setup_alpha_G2 = PointG2 77\<rparr>
   \<and> PolynomialCommitmentScheme_setup bls12_381_Fr_ORDER 77 (- 1) =
       Inr \<lparr>Setup_pp = [], Setup_alpha_G2 = PointG2 77\<rparr>
   \<and> Kzg_setup r a 0 = Inl AssertionError
   \<and> CheatingKzg_setup r a 0 = Inl AssertionError
   \<and> ZkKzg_setup r a b 0 = Inl AssertionError"
proof (intro conjI)
  show "PolynomialCommitmentScheme_setup bls12_381_Fr_ORDER 77 0 =
       Inr \<lparr>Setup_pp = [G1_BASE], Setup_alpha_G2 = PointG2 77\<rparr>"
    by code_simp
  show "PolynomialCommitmentScheme_setup bls12_381_Fr_ORDER 77 (- 1) =
       Inr \<lparr>Setup_pp = [], Setup_alpha_G2 = PointG2 77\<rparr>"
    by code_simp
qed (simp_all add: PolynomialCommitmentScheme_setup_def Kzg_setup_def CheatingKzg_setup_def
      ZkKzg_setup_def split: sum.splits)

text \<open>
  C7 (commit precondition). \<open>commit\<close> does fail its assertion whenever the lengths
  differ (lemma \<open>commit_length_mismatch\<close>), but it does not always return with matching
  lengths. \<open>ZkKzg.commit\<close> compares \<open>pp_G1\<close> with the coefficients and \<open>pp_H\<close> with
  the blinding coefficients, never the two ladders with each other, and its loop runs
  over the indices of \<open>pp_G1\<close>: with a shorter \<open>pp_H\<close> it reads past the end and ends in
  a TypeError; with a longer \<open>pp_H\<close> it returns, and the blinding coefficients past the
  length of \<open>pp_G1\<close> have no effect on the commitment. Both variants throw in
  \<open>multiply\<close> for a coefficient 0, for every order and every pair of ladders.
\<close>

theorem commit_matching_lengths_throws:
  "ZkKzg_commit bls12_381_Fr_ORDER [G1_BASE, G1_BASE] [G1_BASE] [1, 2] [3] = Inl TypeError
   \<and> ZkKzg_commit bls12_381_Fr_ORDER [G1_BASE] [G1_BASE, G1_BASE] [1] [3, 4] = Inr (PointG1 4)
   \<and> ZkKzg_commit bls12_381_Fr_ORDER [G1_BASE] [G1_BASE] [1] [3] = Inr (PointG1 4)
   \<and> Kzg_commit r [P0, P1] [1, 0] = Inl InvalidScalar
   \<and> ZkKzg_commit r [P0, P1] [H0, H1] [1, 0] [3, 4] = Inl InvalidScalar"
proof (intro conjI)
  show "Kzg_commit r [P0, P1] [1, 0] = Inl InvalidScalar"
    by (cases P0; cases P1) (simp add: Kzg_commit_def)
  show "ZkKzg_commit r [P0, P1] [H0, H1] [1, 0] [3, 4] = Inl InvalidScalar"
    by (cases P0; cases P1; cases H0) (simp add: ZkKzg_commit_def)
qed code_simp+

text \<open>
  C10 (the two honest implementations agree). On the same parameters, coefficients and
  point, \<open>Kzg.commit\<close> and \<open>PolynomialCommitmentScheme.commit\<close> return the same
  result, and so do \<open>Kzg.prove\<close> and \<open>PolynomialCommitmentScheme.prove\<close>, failures
  included.
\<close>

theorem implementations_agree:
  "Kzg_commit r pp coefficients = PolynomialCommitmentScheme_commit r pp coefficients
   \<and> Kzg_prove r pp f_coefficients u = PolynomialCommitmentScheme_prove r pp f_coefficients u"
proof
  show c: "Kzg_commit r pp coefficients = PolynomialCommitmentScheme_commit r pp coefficients"
    for pp coefficients
    by (simp add: Kzg_commit_def PolynomialCommitmentScheme_commit_def
        PolynomialCommitmentScheme_commit_loop_eq)
  show "Kzg_prove r pp f_coefficients u = PolynomialCommitmentScheme_prove r pp f_coefficients u"
    by (simp add: Kzg_prove_def PolynomialCommitmentScheme_prove_def synthetic_division_def
        field_division_loop_eq field_zero_def c)
qed

text \<open>
  C9 (interpolation round trip), as stated, fails for coefficients that are not the
  canonical representatives of their field elements, and for points that are distinct
  integers but congruent modulo the order. At the order of BLS12-381: for \<open>x - 1\<close>
  written \<open>[-1, 1]\<close> and the points 0 and 1 the vector returned is \<open>[r - 1, 1]\<close>; for
  the points 0 and \<open>r\<close> the inversion of the denominator fails.
\<close>

theorem interpolation_round_trip_noncanonical:
  "last [- 1, 1 :: int] \<noteq> 0 \<and> distinct [0, 1 :: int]
   \<and> lagrangeInterpolation bls12_381_Fr_ORDER
         [(0, evalPolyAt bls12_381_Fr_ORDER [- 1, 1] 0), (1, evalPolyAt bls12_381_Fr_ORDER [- 1, 1] 1)]
       = Inr [bls12_381_Fr_ORDER - 1, 1]
   \<and> [bls12_381_Fr_ORDER - 1, 1] \<noteq> [- 1, 1]
   \<and> distinct [0, bls12_381_Fr_ORDER]
   \<and> lagrangeInterpolation bls12_381_Fr_ORDER
         [(0, evalPolyAt bls12_381_Fr_ORDER [1, 1] 0),
          (bls12_381_Fr_ORDER, evalPolyAt bls12_381_Fr_ORDER [1, 1] bls12_381_Fr_ORDER)]
       = Inl InvertError"
proof -
  have 1: "lagrangeInterpolation bls12_381_Fr_ORDER
         [(0, evalPolyAt bls12_381_Fr_ORDER [- 1, 1] 0), (1, evalPolyAt bls12_381_Fr_ORDER [- 1, 1] 1)]
       = Inr [bls12_381_Fr_ORDER - 1, 1]"
    by code_simp
  have 2: "lagrangeInterpolation bls12_381_Fr_ORDER
         [(0, evalPolyAt bls12_381_Fr_ORDER [1, 1] 0),
          (bls12_381_Fr_ORDER, evalPolyAt bls12_381_Fr_ORDER [1, 1] bls12_381_Fr_ORDER)]
       = Inl InvertError"
    by code_simp
  show ?thesis
    using 1 2 by (simp add: bls12_381_Fr_ORDER_def)
qed

text \<open>
  C9, amended. Over a field of prime order \<open>r\<close>, for every coefficient vector of
  length \<open>d + 1\<close> whose coefficients lie in the canonical range from 0 to \<open>r - 1\<close> and
  whose last coefficient is not zero, and every choice of \<open>d + 1\<close> points that are
  pairwise distinct modulo \<open>r\<close>, evaluating with \<open>evalPolyAt\<close> at the points and
  reconstructing with \<open>lagrangeInterpolation\<close> returns exactly the coefficient vector.
\<close>

theorem interpolation_round_trip_canonical:
  assumes "prime_order r"
    and "length coefficients = d + 1"
    and "length xs = d + 1"
    and "\<forall>c \<in> set coefficients. 0 \<le> c \<and> c < r"
    and "last coefficients \<noteq> 0"
    and "distinct (map (\<lambda>x. x mod r) xs)"
  shows "lagrangeInterpolation r (map (\<lambda>x. (x, evalPolyAt r coefficients x)) xs)
           = Inr coefficients"
proof -
  have ne: "coefficients \<noteq> []"
    using assms(2) by auto
  have m: "map (\<lambda>c. c mod r) coefficients = coefficients"
    using assms(4) by (intro map_idI) simp
  have "last coefficients \<in> set coefficients"
    using ne by simp
  then have "last coefficients mod r = last coefficients"
    using assms(4) by simp
  then have lead: "last coefficients mod r \<noteq> 0"
    using assms(5) by simp
  have len: "length xs = length coefficients"
    using assms(2,3) by simp
  show ?thesis
    using interpolation_round_trip[OF assms(1) len ne assms(6) lead] m by simp
qed

theorem interpolation_round_trip_canonical_witness:
  "prime_order 1009
   \<and> length [5, 4, 3, 2, 1 :: int] = 4 + 1
   \<and> length [0, 1, 2, 3, 4 :: int] = 4 + 1
   \<and> last [5, 4, 3, 2, 1 :: int] \<noteq> 0
   \<and> distinct (map (\<lambda>x. x mod 1009) [0, 1, 2, 3, 4 :: int])
   \<and> lagrangeInterpolation 1009 (map (\<lambda>x. (x, evalPolyAt 1009 [5, 4, 3, 2, 1] x)) [0, 1, 2, 3, 4])
       = Inr [5, 4, 3, 2, 1]"
proof -
  have h1: "prime_order 1009"
    by code_simp
  have h2: "length [5, 4, 3, 2, 1 :: int] = 4 + 1"
    and h3: "length [0, 1, 2, 3, 4 :: int] = 4 + 1"
    and h4: "\<forall>c \<in> set [5, 4, 3, 2, 1 :: int]. 0 \<le> c \<and> c < 1009"
    and h5: "last [5, 4, 3, 2, 1 :: int] \<noteq> 0"
    and h6: "distinct (map (\<lambda>x. x mod 1009) [0, 1, 2, 3, 4 :: int])"
    by simp_all
  from interpolation_round_trip_canonical[OF h1 h2 h3 h4 h5 h6] h1 h2 h3 h5 h6
  show ?thesis
    by blast
qed

end
